theory Spec2Isabelle
  imports Main
begin

section \<open>TaskManager.js: a priority queue of tasks\<close>

text \<open>
  The module keeps a singly linked chain of \<open>TMTask\<close> objects between \<open>queue.head\<close> and
  \<open>queue.tail\<close>, a counter \<open>length\<close>, and one dynamic property \<open>this[id]\<close> per tracked
  identifier. The head is the task whose work function has been called; its promise
  settles later and the \<open>ready\<close> listener of the constructor then moves the head on.

  The embedding is a store of task objects addressed by natural numbers, explicit state
  passing for the manager, a sum type for what a call throws, and a trace for what the
  module emits. What JavaScript does later (a promise settling) is a separate step of the
  model, taken by the environment.
\<close>

subsection \<open>Data\<close>

type_synonym addr = nat

text \<open>
  Identifiers are numbers, as the default \<open>Date.now()\<close> is; \<open>0\<close> is the falsy one. A string
  identifier that names no field of the manager object behaves in the same way. A work
  function is opaque: only its presence matters to the scheduler.
\<close>

type_synonym ident = nat
type_synonym func = nat

text \<open>The five sinks of \<open>tracer.js\<close>.\<close>

datatype level = LOG | INFO | DEBUG | WARN | ERROR

text \<open>
  What the module lets the outside see, in order: a line of the tracer, the call of a
  task's work function, the two events. \<open>Dispatch\<close> and \<open>Complete\<close> carry what the called
  work function, or a listener of \<open>complete\<close>, reads on the manager at that moment: head,
  tail, \<open>length\<close> and the tracked identifiers.
\<close>

type_synonym seen = "addr option \<times> addr option \<times> int \<times> ident set"

datatype event = Diag level | Dispatch addr seen | Ready addr | Complete seen

text \<open>
  \<open>TypeError\<close>: calling \<open>undefined\<close>, or reading a property of \<open>null\<close>. \<open>NoReturn\<close>: the
  insertion loop of \<open>enqueueTask\<close> does not end (it cannot on a chain that closes on
  itself).
\<close>

datatype failure = TypeError | NoReturn

text \<open>
  \<open>TMTaskParams\<close> as the caller passes it: every field may be missing. \<open>p_next\<close> is there
  because the retry handler passes a \<open>TMTask\<close>, whose \<open>next\<close> \<open>Object.assign\<close> copies; a
  caller's record has none. \<open>taskType\<close> and \<open>data\<close> only reach the tracer and the work
  function and are left out.
\<close>

record TMTaskParams =
  p_id :: "ident option"
  p_taskPriority :: "int option"
  p_taskFunc :: "func option"
  p_debug_task :: bool
  p_retry :: bool
  p_next :: "addr option"

text \<open>
  A \<open>TMTask\<close> object, built by \<open>enqueueTask\<close> from parameters it has normalised, so \<open>id\<close>
  and \<open>taskPriority\<close> are set; \<open>taskFunc\<close> is still missing when the manager has no default.
\<close>

record TMTask =
  id_task :: ident
  taskPriority :: int
  taskFunc :: "func option"
  debug_task :: bool
  retry :: bool
  "next" :: "addr option"

text \<open>
  The manager. \<open>tracked\<close> holds the identifiers \<open>i\<close> with \<open>this[i] = 1\<close>. \<open>heap\<close> holds the
  task objects and \<open>allocated\<close> counts them: \<open>new TMTask\<close> takes the address \<open>allocated\<close>.
  \<open>pending\<close> lists the promises made by \<open>execute\<close> that have not settled: the task, and
  whether \<open>execute\<close> attached the retry handler to it. \<open>tmName\<close> and \<open>debug_tasks\<close> only
  reach the console and are left out.
\<close>

record TaskManager =
  defaultTaskFunc :: "func option"
  head :: "addr option"
  tail :: "addr option"
  length_tm :: int
  tracked :: "ident set"
  heap :: "addr \<Rightarrow> TMTask"
  allocated :: nat
  pending :: "(addr \<times> bool) list"
  trace :: "event list"

definition blank :: TMTask where
  "blank = \<lparr>id_task = 0, taskPriority = 5, taskFunc = None, debug_task = False,
             retry = False, next = None\<rparr>"

text \<open>The constructor: an empty queue, nothing tracked, no object yet.\<close>

definition new_TaskManager :: "func option \<Rightarrow> TaskManager" where
  "new_TaskManager d =
     \<lparr>defaultTaskFunc = d, head = None, tail = None, length_tm = 0, tracked = {},
      heap = (\<lambda>a. blank), allocated = 0, pending = [], trace = []\<rparr>"

definition diag :: "level \<Rightarrow> TaskManager \<Rightarrow> TaskManager" where
  "diag l s = s\<lparr>trace := trace s @ [Diag l]\<rparr>"

definition look :: "TaskManager \<Rightarrow> seen" where
  "look s = (head s, tail s, length_tm s, tracked s)"

subsection \<open>TMTask.execute\<close>

text \<open>
  One debug line, then \<open>this.taskFunc(this.data)\<close>: a \<open>TypeError\<close> when there is no
  function. Otherwise the call is made and its result becomes a promise that is still
  pending when \<open>execute\<close> returns; the retry handler is attached when \<open>retry\<close> is set. The
  work function is taken to return normally and not to call the manager itself.
\<close>

definition execute :: "addr \<Rightarrow> TaskManager \<Rightarrow> failure + TaskManager" where
  "execute a s =
     (let s1 = diag DEBUG s in
      case taskFunc (heap s1 a) of
        None \<Rightarrow> Inl TypeError
      | Some f \<Rightarrow>
          Inr (s1\<lparr>trace := trace s1 @ [Dispatch a (look s1)],
                   pending := pending s1 @ [(a, retry (heap s1 a))]\<rparr>))"

subsection \<open>The ready listener of the constructor\<close>

text \<open>
  \<open>delete this[task.id]\<close>, \<open>head = task.next || null\<close>, then either the new head is
  executed or \<open>tail\<close> is cleared and \<open>complete\<close> is emitted, and \<open>length--\<close> comes last.
\<close>

definition on_ready :: "addr \<Rightarrow> TaskManager \<Rightarrow> failure + TaskManager" where
  "on_ready a s =
     (let s1 = diag INFO s;
          s2 = s1\<lparr>tracked := tracked s1 - {id_task (heap s1 a)}\<rparr>;
          s3 = s2\<lparr>head := next (heap s2 a)\<rparr>
      in case head s3 of
           Some h \<Rightarrow>
             (case execute h (diag INFO s3) of
                Inl e \<Rightarrow> Inl e
              | Inr s4 \<Rightarrow> Inr (s4\<lparr>length_tm := length_tm s4 - 1\<rparr>))
         | None \<Rightarrow>
             (let s4 = s3\<lparr>tail := head s3\<rparr>;
                  s5 = diag INFO s4;
                  s6 = s5\<lparr>trace := trace s5 @ [Complete (look s5)]\<rparr>
              in Inr (s6\<lparr>length_tm := length_tm s6 - 1\<rparr>)))"

text \<open>
  \<open>emit('ready', task)\<close>: the event, then the listener above, which has run when \<open>emit\<close>
  returns. Listeners a caller has added for \<open>ready\<close> or \<open>complete\<close> are taken not to call
  the manager.
\<close>

definition emit_ready :: "addr \<Rightarrow> TaskManager \<Rightarrow> failure + TaskManager" where
  "emit_ready a s = on_ready a (s\<lparr>trace := trace s @ [Ready a]\<rparr>)"

subsection \<open>TaskManager.skip\<close>

definition skip :: "TaskManager \<Rightarrow> failure + TaskManager" where
  "skip s =
     (if 0 < length_tm s then
        (case head s of
           None \<Rightarrow> Inl TypeError
         | Some h \<Rightarrow> emit_ready h (diag WARN s))
      else Inr (diag ERROR s))"

subsection \<open>TaskManager.enqueueTask\<close>

text \<open>
  The loop \<open>while (pointer.next && pointer.next.taskPriority <= params.taskPriority)
  pointer = pointer.next\<close>; its result is the pointer it stops at.
\<close>

partial_function (option) walk :: "(addr \<Rightarrow> TMTask) \<Rightarrow> int \<Rightarrow> addr \<Rightarrow> addr option" where
  "walk h p pointer =
     (case next (h pointer) of
        None \<Rightarrow> Some pointer
      | Some n \<Rightarrow> if taskPriority (h n) \<le> p then walk h p n else Some pointer)"

text \<open>\<open>this.length++\<close> and the warning about a long queue.\<close>

definition count_up :: "TaskManager \<Rightarrow> TaskManager" where
  "count_up s =
     (let s1 = s\<lparr>length_tm := length_tm s + 1\<rparr>
      in if 10 < length_tm s1 then diag WARN s1 else s1)"

text \<open>
  The defaults \<open>enqueueTask\<close> writes into the parameters before it uses them: the
  identifier (\<open>now\<close> is what \<open>Date.now()\<close> returns during the call), the priority, the
  work function. \<open>new TMTask(params)\<close> copies the parameters so completed.
\<close>

definition id_of :: "TMTaskParams \<Rightarrow> ident \<Rightarrow> ident" where
  "id_of params now = (case p_id params of None \<Rightarrow> now | Some i \<Rightarrow> if i = 0 then now else i)"

definition priority_of :: "TMTaskParams \<Rightarrow> int" where
  "priority_of params = (case p_taskPriority params of None \<Rightarrow> 5 | Some k \<Rightarrow> k)"

definition func_of :: "TMTaskParams \<Rightarrow> func option \<Rightarrow> func option" where
  "func_of params d = (case p_taskFunc params of None \<Rightarrow> d | Some g \<Rightarrow> Some g)"

definition new_TMTask :: "TMTaskParams \<Rightarrow> ident \<Rightarrow> func option \<Rightarrow> TMTask" where
  "new_TMTask params now d =
     \<lparr>id_task = id_of params now, taskPriority = priority_of params,
      taskFunc = func_of params d, debug_task = p_debug_task params,
      retry = p_retry params, next = p_next params\<rparr>"

text \<open>
  The test \<open>!this[params.id] || allowDuplicate\<close> is written with the short circuit of
  \<open>||\<close>. In the branch of a queue that is not empty the new object's \<open>next\<close> is set
  before the pointer's. The parameters are passed by value: a caller who submits the same
  object again passes what the defaults written by the first call have left in it.
\<close>

definition enqueueTask ::
  "TMTaskParams \<Rightarrow> bool \<Rightarrow> ident \<Rightarrow> TaskManager \<Rightarrow> failure + TaskManager" where
  "enqueueTask params allowDuplicate now s =
     (let s1 = (if p_debug_task params then diag DEBUG s else s);
          task = new_TMTask params now (defaultTaskFunc s1);
          s2 = diag LOG s1
      in if (if id_task task \<in> tracked s2 then allowDuplicate else True) then
           (let s3 = s2\<lparr>tracked := insert (id_task task) (tracked s2)\<rparr> in
            case head s3 of
              None \<Rightarrow>
                (let s4 = diag LOG s3;
                     a = allocated s4;
                     s5 = s4\<lparr>heap := (heap s4)(a := task), allocated := Suc a,
                              head := Some a, tail := Some a\<rparr>
                 in case execute a s5 of
                      Inl e \<Rightarrow> Inl e
                    | Inr s6 \<Rightarrow> Inr (count_up s6))
            | Some h \<Rightarrow>
                (let s4 = diag LOG s3 in
                 case walk (heap s4) (taskPriority task) h of
                   None \<Rightarrow> Inl NoReturn
                 | Some pointer \<Rightarrow>
                     (let nx = next (heap s4 pointer);
                          a = allocated s4;
                          s5 = s4\<lparr>heap := (heap s4)
                                   (a := task\<lparr>next := nx\<rparr>,
                                    pointer := (heap s4 pointer)\<lparr>next := Some a\<rparr>),
                                 allocated := Suc a\<rparr>;
                          s6 = (if nx = None then s5\<lparr>tail := Some a\<rparr> else s5)
                      in Inr (count_up s6))))
         else Inr (diag WARN s2))"

subsection \<open>The retry handler and the settling of a promise\<close>

text \<open>
  Priorities are integers, and JavaScript holds them as numbers: doubles, with 53
  significant bits. Comparing two of them is exact. Adding one is exact while the magnitude
  of the sum is below \<open>2 ^ 53\<close>; from there on the sum is rounded to the nearest number, a
  tie going to the number with the even significand. \<open>ulp a\<close> is the distance between
  neighbouring numbers at the magnitude \<open>a\<close>, \<open>nearest a\<close> the number nearest to the
  magnitude \<open>a\<close>, and \<open>number_of n\<close> the number nearest to the integer \<open>n\<close> (for the
  magnitudes below \<open>2 ^ 1024\<close> that finite numbers have). \<open>js_integer n\<close>: the integer \<open>n\<close>
  is a number itself. The counter \<open>length\<close> moves by one from \<open>0\<close> and is taken to stay
  in the exact range.
\<close>

fun ulp :: "nat \<Rightarrow> nat" where
  "ulp a = (if a < 2 ^ 53 then 1 else 2 * ulp (a div 2))"

declare ulp.simps [simp del]

definition nearest :: "nat \<Rightarrow> nat" where
  "nearest a =
     (let u = ulp a; q = a div u; r = a mod u
      in if 2 * r < u \<or> (2 * r = u \<and> even q) then q * u else (q + 1) * u)"

definition number_of :: "int \<Rightarrow> int" where
  "number_of n = (if n < 0 then - int (nearest (nat (- n))) else int (nearest (nat n)))"

definition js_integer :: "int \<Rightarrow> bool" where
  "js_integer n = (number_of n = n \<and> \<bar>n\<bar> < 2 ^ 1024)"

text \<open>
  \<open>if (this.taskPriority < 5) this.taskPriority++\<close>: the increment is the addition of
  numbers.
\<close>

definition demote :: "int \<Rightarrow> int" where
  "demote p = (if p < 5 then number_of (p + 1) else p)"

text \<open>The task object, read as the parameters of its own re-submission.\<close>

definition params_of :: "TMTask \<Rightarrow> TMTaskParams" where
  "params_of t =
     \<lparr>p_id = Some (id_task t), p_taskPriority = Some (taskPriority t),
      p_taskFunc = taskFunc t, p_debug_task = debug_task t, p_retry = retry t,
      p_next = next t\<rparr>"

text \<open>
  The handler \<open>execute\<close> attaches with \<open>result.catch\<close>: an error line, the priority
  raised on the task object itself, \<open>enqueueTask(this, true)\<close>, then \<open>skip()\<close>. The
  parameter of that \<open>enqueueTask\<close> is the task object, so the defaults \<open>enqueueTask\<close>
  writes into its parameter (an identifier when there is none, the default work function
  when there is none) are written into the object before it is copied.
\<close>

definition retry_catch :: "addr \<Rightarrow> ident \<Rightarrow> TaskManager \<Rightarrow> failure + TaskManager" where
  "retry_catch a now s =
     (let s1 = diag ERROR s;
          t = (heap s1 a)\<lparr>taskPriority := demote (taskPriority (heap s1 a))\<rparr>;
          t' = t\<lparr>id_task := id_of (params_of t) now,
                taskFunc := func_of (params_of t) (defaultTaskFunc s1)\<rparr>;
          s2 = s1\<lparr>heap := (heap s1)(a := t')\<rparr>
      in case enqueueTask (params_of t') True now s2 of
           Inl e \<Rightarrow> Inl e
         | Inr s3 \<Rightarrow> skip s3)"

datatype settlement = Fulfilled | Rejected

text \<open>
  The \<open>k\<close>-th pending promise settles. Fulfilled: the callback of \<open>result.then\<close> emits
  \<open>ready\<close> with the task. Rejected: the retry handler runs when \<open>execute\<close> attached it, and
  nothing of the module runs otherwise. There is nothing to settle when \<open>k\<close> names no
  promise.
\<close>

definition settle :: "nat \<Rightarrow> settlement \<Rightarrow> ident \<Rightarrow> TaskManager \<Rightarrow> failure + TaskManager" where
  "settle k how now s =
     (if k < length (pending s) then
        (let a = fst (pending s ! k);
             handled = snd (pending s ! k);
             s1 = s\<lparr>pending := take k (pending s) @ drop (Suc k) (pending s)\<rparr>
         in case how of
              Fulfilled \<Rightarrow> emit_ready a s1
            | Rejected \<Rightarrow> if handled then retry_catch a now s1 else Inr s1)
      else Inr s)"

subsection \<open>Scripts of calls\<close>

text \<open>
  What a caller and the environment do to a manager, one after the other; the script
  stops at the first call that throws.
\<close>

datatype call = EnqueueTask TMTaskParams bool ident | Skip | Settle nat settlement ident

fun step :: "call \<Rightarrow> TaskManager \<Rightarrow> failure + TaskManager" where
  "step (EnqueueTask params allowDuplicate now) s = enqueueTask params allowDuplicate now s"
| "step Skip s = skip s"
| "step (Settle k how now) s = settle k how now s"

fun run :: "call list \<Rightarrow> TaskManager \<Rightarrow> failure + TaskManager" where
  "run [] s = Inr s"
| "run (c # cs) s = (case step c s of Inl e \<Rightarrow> Inl e | Inr s' \<Rightarrow> run cs s')"

subsection \<open>The chain as a list\<close>

text \<open>\<open>is_chain h p as\<close>: following \<open>next\<close> from \<open>p\<close> visits exactly \<open>as\<close> and ends at \<open>null\<close>.\<close>

fun is_chain :: "(addr \<Rightarrow> TMTask) \<Rightarrow> addr option \<Rightarrow> addr list \<Rightarrow> bool" where
  "is_chain h p [] = (p = None)"
| "is_chain h p (a # as) = (p = Some a \<and> is_chain h (next (h a)) as)"

subsection \<open>What a run shows\<close>

text \<open>The tasks \<open>ready\<close> was emitted with, in the order of the events.\<close>

fun ready_of :: "event \<Rightarrow> addr list" where
  "ready_of (Ready a) = [a]"
| "ready_of e = []"

definition completed :: "TaskManager \<Rightarrow> addr list" where
  "completed s = concat (map ready_of (trace s))"

text \<open>
  What the module does other than writing lines to the tracer: the calls of work
  functions and the two events.
\<close>

fun is_diag :: "event \<Rightarrow> bool" where
  "is_diag (Diag l) = True"
| "is_diag e = False"

definition emitted :: "TaskManager \<Rightarrow> event list" where
  "emitted s = filter (\<lambda>e. \<not> is_diag e) (trace s)"

text \<open>
  The task of the README's examples: an identifier, a priority or none, the retry flag,
  and a work function of its own.
\<close>

definition sampleTask :: "ident \<Rightarrow> int option \<Rightarrow> bool \<Rightarrow> TMTaskParams" where
  "sampleTask i p r =
     \<lparr>p_id = Some i, p_taskPriority = p, p_taskFunc = Some 0, p_debug_task = False,
      p_retry = r, p_next = None\<rparr>"

subsection \<open>The position the spec gives a new task\<close>

text \<open>
  After every waiting task whose priority is at most its own, before the first one of a
  greater priority: the spec's description of where a task lands among the waiting ones,
  to be compared with what the loop of \<open>enqueueTask\<close> does.
\<close>

definition place :: "('a \<Rightarrow> int) \<Rightarrow> 'a \<Rightarrow> 'a list \<Rightarrow> 'a list" where
  "place f x ws = takeWhile (\<lambda>y. f y \<le> f x) ws @ x # dropWhile (\<lambda>y. f y \<le> f x) ws"

text \<open>A task object's identifier and priority; the same for a submission.\<close>

definition key :: "TaskManager \<Rightarrow> addr \<Rightarrow> ident \<times> int" where
  "key s a = (id_task (heap s a), taskPriority (heap s a))"

definition ticket :: "TMTaskParams \<times> ident \<Rightarrow> ident \<times> int" where
  "ticket sub = (id_of (fst sub) (snd sub), priority_of (fst sub))"

text \<open>
  The regime the module is written for: \<open>as\<close> is the chain, its objects exist and have a
  work function, \<open>tail\<close> is its last object, \<open>length\<close> counts it, the one pending promise
  is the head's, and only identifiers of linked tasks are tracked.
\<close>

definition steady :: "TaskManager \<Rightarrow> addr list \<Rightarrow> bool" where
  "steady s as =
     (is_chain (heap s) (head s) as
      \<and> list_all (\<lambda>a. a < allocated s \<and> taskFunc (heap s a) \<noteq> None) as
      \<and> tail s = (if as = [] then None else Some (last as))
      \<and> length_tm s = int (length as)
      \<and> pending s = (case as of [] \<Rightarrow> [] | a # ws \<Rightarrow> [(a, retry (heap s a))])
      \<and> tracked s \<subseteq> set (map (\<lambda>a. id_task (heap s a)) as))"

text \<open>
  A chain whose objects exist and whose head has no promise left: there is nothing to
  settle.
\<close>

definition stalled :: "TaskManager \<Rightarrow> addr list \<Rightarrow> bool" where
  "stalled s as =
     (is_chain (heap s) (head s) as \<and> as \<noteq> [] \<and> list_all (\<lambda>x. x < allocated s) as
      \<and> pending s = [])"

text \<open>
  The order of the waiting tasks. Objects get their addresses in the order in which
  submissions are accepted, so \<open>x < y\<close> says that \<open>x\<close> was submitted before \<open>y\<close>.
  \<open>before s x y\<close>: \<open>x\<close> has the smaller priority value, or the same one and was
  submitted first. \<open>fifo s x y\<close>: if the two have the same priority, \<open>x\<close> was submitted
  first. \<open>orderly s as\<close>: the steady regime, with the waiting tasks (all of \<open>as\<close> but the
  head) in the order \<open>before\<close>, and no waiting task of the head's priority submitted
  before the head.
\<close>

definition before :: "TaskManager \<Rightarrow> addr \<Rightarrow> addr \<Rightarrow> bool" where
  "before s x y =
     (taskPriority (heap s x) < taskPriority (heap s y)
      \<or> (taskPriority (heap s x) = taskPriority (heap s y) \<and> x < y))"

definition fifo :: "TaskManager \<Rightarrow> addr \<Rightarrow> addr \<Rightarrow> bool" where
  "fifo s x y = (taskPriority (heap s x) = taskPriority (heap s y) \<longrightarrow> x < y)"

definition orderly :: "TaskManager \<Rightarrow> addr list \<Rightarrow> bool" where
  "orderly s as =
     (steady s as
      \<and> (case as of [] \<Rightarrow> True | a # ws \<Rightarrow> sorted_wrt (before s) ws \<and> list_all (fifo s a) ws))"

text \<open>
  The calls of a run in which tasks are submitted and complete: a submission by a caller
  (any identifier, priority and bypass flag; the record has a work function or the manager
  a default, and it has no \<open>next\<close>), and the fulfilment of the promise of the executing
  task. \<open>d\<close> is the manager's default work function.
\<close>

fun admissible :: "func option \<Rightarrow> call \<Rightarrow> bool" where
  "admissible d (EnqueueTask q dup now) = (func_of q d \<noteq> None \<and> p_next q = None)"
| "admissible d Skip = False"
| "admissible d (Settle k how now) = (k = 0 \<and> how = Fulfilled)"

section \<open>Basic facts\<close>

subsection \<open>Numbers\<close>

text \<open>
  Up to \<open>2 ^ 53\<close> every integer is a number and the increment is exact. Below
  \<open>- 2 ^ 53\<close> the numbers are even, and the increment of one of them gives the number
  itself or the next one but one.
\<close>

lemma ulp_small: "a < 2 ^ 53 \<Longrightarrow> ulp a = 1"
  by (subst ulp.simps) simp

lemma ulp_big: "\<not> a < 2 ^ 53 \<Longrightarrow> ulp a = 2 * ulp (a div 2)"
  by (subst ulp.simps) simp

lemma ulp_pos: "0 < ulp a"
  by (induction a rule: ulp.induct) (subst ulp.simps, simp)

lemma nearest_small: "a < 2 ^ 53 \<Longrightarrow> nearest a = a"
  by (simp add: nearest_def ulp_small)

lemma number_of_small: "\<bar>n\<bar> < 2 ^ 53 \<Longrightarrow> number_of n = n"
  by (simp add: number_of_def nearest_small)

lemma demote_exact: "- (2 ^ 53) \<le> p \<Longrightarrow> demote p = (if p < 5 then p + 1 else p)"
  by (simp add: demote_def number_of_small)

lemma ulp_even: "\<not> a < 2 ^ 53 \<Longrightarrow> even (ulp a)"
  by (simp add: ulp_big)

lemma ulp_mono: "a \<le> b \<Longrightarrow> ulp a dvd ulp b"
proof (induction b arbitrary: a rule: ulp.induct)
  case (1 b)
  note le = "1.prems" and IH = "1.IH"
  show ?case
  proof (cases "a < 2 ^ 53")
    case True
    then show ?thesis by (simp add: ulp_small)
  next
    case False
    with le have big: "\<not> b < 2 ^ 53" by simp
    from le have "a div 2 \<le> b div 2" by (rule div_le_mono)
    with big have "ulp (a div 2) dvd ulp (b div 2)" by (rule IH)
    with False big show ?thesis by (simp add: ulp_big)
  qed
qed

lemma nearest_dvd: "ulp a dvd nearest a"
  by (simp add: nearest_def Let_def)

lemma nearest_fixed: "(nearest a = a) = (ulp a dvd a)"
proof
  assume "nearest a = a"
  with nearest_dvd [of a] show "ulp a dvd a" by simp
next
  assume d: "ulp a dvd a"
  then have "a mod ulp a = 0" by simp
  moreover from d have "a div ulp a * ulp a = a" by (rule dvd_div_mult_self)
  ultimately show "nearest a = a" using ulp_pos [of a] by (simp add: nearest_def Let_def)
qed

lemma below_multiple:
  fixes u m :: nat
  assumes "0 < u" and "0 < m"
  shows "(m * u - 1) div u = m - 1" and "(m * u - 1) mod u = u - 1"
proof -
  define k where "k = m - 1"
  define r where "r = u - 1"
  from assms have eq: "m * u - 1 = k * u + r"
    unfolding k_def r_def by (cases m) simp_all
  from assms(1) have less: "r < u" unfolding r_def by simp
  have dv: "(k * u + r) div u = k" and md: "(k * u + r) mod u = r"
    using less by simp_all
  have "(m * u - 1) div u = k" by (simp only: eq dv)
  then show "(m * u - 1) div u = m - 1" by (simp only: k_def)
  have "(m * u - 1) mod u = r" by (simp only: eq md)
  then show "(m * u - 1) mod u = u - 1" by (simp only: r_def)
qed

lemma nearest_below:
  assumes fixed: "nearest a = a" and big: "2 ^ 53 < a"
  shows "nearest (a - 1) = a \<or> (nearest (a - 1) = a - 2 \<and> ulp (a - 1) = 2)"
proof -
  define u where "u = ulp (a - 1)"
  from big have "\<not> a - 1 < 2 ^ 53" by simp
  then have ev: "even u" unfolding u_def by (rule ulp_even)
  have pos: "0 < u" unfolding u_def by (rule ulp_pos)
  from ev pos have two: "2 \<le> u" by (auto elim!: evenE)
  have "u dvd ulp a" unfolding u_def by (rule ulp_mono) simp
  moreover from fixed have "ulp a dvd a" by (simp add: nearest_fixed)
  ultimately have "u dvd a" by (rule dvd_trans)
  then obtain m where a: "a = m * u" by (auto simp: dvd_def mult.commute)
  with big have m: "0 < m" by (cases m) simp_all
  note dm = below_multiple [OF pos m]
  define b where "b = a - 1"
  define tie where "tie = (u = 2 \<and> even (m - 1))"
  have u_b: "ulp b = u" by (simp add: u_def b_def)
  have dv: "b div u = m - 1" and md: "b mod u = u - 1"
    using dm by (simp_all add: b_def a)
  have cond: "(2 * (b mod u) < u \<or> (2 * (b mod u) = u \<and> even (b div u))) = tie"
    unfolding dv md tie_def using two by auto
  have lo: "b div u * u = a - u" unfolding dv a by (simp add: algebra_simps)
  have hi: "(b div u + 1) * u = a" unfolding dv a using m by (simp add: algebra_simps)
  have "nearest b = (if tie then a - u else a)"
    unfolding nearest_def Let_def u_b cond lo hi by (rule refl)
  then have near: "nearest (a - 1) = (if tie then a - u else a)"
    by (simp only: b_def)
  show ?thesis
  proof (cases tie)
    case True
    with near have "nearest (a - 1) = a - u" by simp
    with True show ?thesis by (simp add: tie_def u_def)
  next
    case False
    with near show ?thesis by simp
  qed
qed

lemma nearest_two_below:
  assumes fixed: "nearest a = a" and big: "2 ^ 53 < a" and two: "ulp (a - 1) = 2"
  shows "nearest (a - 2) = a - 2"
proof -
  have "ulp (a - 2) dvd ulp (a - 1)" by (rule ulp_mono) simp
  with two have d: "ulp (a - 2) dvd 2" by simp
  have "ulp (a - 1) dvd ulp a" by (rule ulp_mono) simp
  moreover from fixed have "ulp a dvd a" by (simp add: nearest_fixed)
  ultimately have "2 dvd a" using two by (metis dvd_trans)
  then have "2 dvd a - 2" by simp
  with d have "ulp (a - 2) dvd a - 2" by (rule dvd_trans)
  then show ?thesis by (simp add: nearest_fixed)
qed

lemma demote_far:
  assumes num: "js_integer p" and far: "p < - (2 ^ 53)"
  shows "demote p = p \<or> demote p = p + 2" and "js_integer (demote p)"
proof -
  define a where "a = nat (- p)"
  from far have p: "p = - int a" and big: "2 ^ 53 < a"
    by (simp_all add: a_def)
  from num far have "- int (nearest a) = p"
    by (simp add: js_integer_def number_of_def a_def)
  with p have "int (nearest a) = int a" by simp
  then have fixed: "nearest a = a" by simp
  from far have d: "demote p = - int (nearest (a - 1))"
    by (simp add: demote_def number_of_def a_def nat_diff_distrib)
  from nearest_below [OF fixed big]
  show "demote p = p \<or> demote p = p + 2"
  proof
    assume "nearest (a - 1) = a"
    with d p show ?thesis by simp
  next
    assume "nearest (a - 1) = a - 2 \<and> ulp (a - 1) = 2"
    with d p big show ?thesis by (simp add: of_nat_diff)
  qed
  from nearest_below [OF fixed big]
  show "js_integer (demote p)"
  proof
    assume "nearest (a - 1) = a"
    with d p num show ?thesis by simp
  next
    assume n: "nearest (a - 1) = a - 2 \<and> ulp (a - 1) = 2"
    define c where "c = a - 2"
    from n have fc: "nearest c = c"
      unfolding c_def by (intro nearest_two_below [OF fixed big]) simp
    from n d have e: "demote p = - int c" by (simp add: c_def)
    from big have cpos: "0 < c" by (simp add: c_def)
    from num p have "int a < 2 ^ 1024" by (simp add: js_integer_def)
    moreover have "int c \<le> int a" by (simp add: c_def)
    ultimately have small: "int c < 2 ^ 1024" by linarith
    from cpos have "number_of (- int c) = - int (nearest c)" by (simp add: number_of_def)
    with fc small show ?thesis by (simp add: js_integer_def e)
  qed
qed

lemma demote_safe:
  assumes "- (2 ^ 53) \<le> p"
  shows "js_integer p \<Longrightarrow> js_integer (demote p)"
proof (cases "p < 5")
  case True
  with assms have "\<bar>p + 1\<bar> < 2 ^ 53" by simp
  then have "number_of (p + 1) = p + 1" by (rule number_of_small)
  moreover have "\<bar>p + 1\<bar> < (2 :: int) ^ 1024"
  proof -
    have "(2 :: int) ^ 53 \<le> 2 ^ 1024" by (rule power_increasing) simp_all
    with \<open>\<bar>p + 1\<bar> < 2 ^ 53\<close> show ?thesis by linarith
  qed
  ultimately show ?thesis using True assms by (simp add: js_integer_def demote_exact)
next
  case False
  assume "js_integer p"
  with False show ?thesis by (simp add: demote_def)
qed

lemma demote_facts:
  assumes num: "js_integer p"
  shows "(demote p = p + 1) = (- (2 ^ 53) \<le> p \<and> p < 5)"
    and "p \<le> demote p" and "demote p \<le> max p 5" and "js_integer (demote p)"
proof -
  show "(demote p = p + 1) = (- (2 ^ 53) \<le> p \<and> p < 5)"
  proof (cases "- (2 ^ 53) \<le> p")
    case True
    then show ?thesis by (simp add: demote_exact)
  next
    case False
    then have far: "p < - (2 ^ 53)" by simp
    from demote_far(1) [OF num far] False show ?thesis by auto
  qed
  show "p \<le> demote p"
  proof (cases "- (2 ^ 53) \<le> p")
    case True
    then show ?thesis by (simp add: demote_exact)
  next
    case False
    then have far: "p < - (2 ^ 53)" by simp
    from demote_far(1) [OF num far] show ?thesis by auto
  qed
  show "demote p \<le> max p 5"
  proof (cases "- (2 ^ 53) \<le> p")
    case True
    then show ?thesis by (simp add: demote_exact)
  next
    case False
    then have far: "p < - (2 ^ 53)" by simp
    from demote_far(1) [OF num far] far show ?thesis by auto
  qed
  show "js_integer (demote p)"
  proof (cases "- (2 ^ 53) \<le> p")
    case True
    then show ?thesis using num by (rule demote_safe)
  next
    case False
    then have far: "p < - (2 ^ 53)" by simp
    from num far show ?thesis by (rule demote_far(2))
  qed
qed

lemma demote_iterated:
  assumes num: "js_integer p"
  shows "js_integer ((demote ^^ n) p) \<and> p \<le> (demote ^^ n) p \<and> (demote ^^ n) p \<le> max p 5
     \<and> (demote ^^ n) p \<le> (demote ^^ Suc n) p"
proof (induction n)
  case 0
  from demote_facts(2) [OF num] num show ?case by simp
next
  case (Suc n)
  define r where "r = (demote ^^ n) p"
  from Suc have r: "js_integer r" "p \<le> r" "r \<le> max p 5" by (simp_all add: r_def)
  note f = demote_facts [OF r(1)]
  have s: "(demote ^^ Suc n) p = demote r" by (simp add: r_def)
  note g = demote_facts [OF f(4)]
  have "js_integer (demote r)" by (rule f)
  moreover from f(2) r(2) have "p \<le> demote r" by simp
  moreover from f(3) r(3) have "demote r \<le> max p 5" by simp
  moreover from g(2) have "demote r \<le> (demote ^^ Suc (Suc n)) p" unfolding funpow.simps comp_def s [symmetric] by simp
  ultimately show ?case unfolding s by blast
qed

subsection \<open>The insertion loop on a chain\<close>

lemma walk_none: "next (h ptr) = None \<Longrightarrow> walk h p ptr = Some ptr"
  by (subst walk.simps) simp
lemma walk_stop: "next (h ptr) = Some n \<Longrightarrow> \<not> taskPriority (h n) \<le> p \<Longrightarrow> walk h p ptr = Some ptr"
  by (subst walk.simps) simp
lemma walk_go: "next (h ptr) = Some n \<Longrightarrow> taskPriority (h n) \<le> p \<Longrightarrow> walk h p ptr = walk h p n"
  by (subst walk.simps) simp

subsection \<open>Chains\<close>

text \<open>A chain is determined by where it starts, and it visits no object twice.\<close>

lemma is_chain_unique: "is_chain h p as \<Longrightarrow> is_chain h p bs \<Longrightarrow> as = bs"
proof (induction as arbitrary: p bs)
  case Nil
  then show ?case by (cases bs) auto
next
  case (Cons a as)
  then show ?case by (cases bs) auto
qed

lemma is_chain_append: "is_chain h p (xs @ a # ys) \<Longrightarrow> is_chain h (Some a) (a # ys)"
  by (induction xs arbitrary: p) auto

lemma is_chain_distinct: "is_chain h p as \<Longrightarrow> distinct as"
proof (induction as arbitrary: p)
  case Nil
  then show ?case by simp
next
  case (Cons a as)
  have "a \<notin> set as"
  proof
    assume "a \<in> set as"
    then obtain ys zs where split: "as = ys @ a # zs"
      by (auto simp: in_set_conv_decomp)
    from Cons.prems have "is_chain h (next (h a)) (ys @ a # zs)"
      by (simp add: split)
    then have "is_chain h (Some a) (a # zs)"
      by (rule is_chain_append)
    moreover from Cons.prems have "is_chain h (Some a) (a # as)" by simp
    ultimately have "a # zs = a # as" by (rule is_chain_unique)
    with split show False by simp
  qed
  moreover from Cons.prems have "is_chain h (next (h a)) as" by simp
  then have "distinct as" by (rule Cons.IH)
  ultimately show ?case by simp
qed

lemma is_chain_frame: "is_chain h p as \<Longrightarrow> (\<And>x. x \<in> set as \<Longrightarrow> next (h' x) = next (h x)) \<Longrightarrow> is_chain h' p as"
  by (induction as arbitrary: p) auto

lemma walk_chain:
  "is_chain h (Some a) (a # ws) \<Longrightarrow>
   walk h p a = Some (last (a # takeWhile (\<lambda>x. taskPriority (h x) \<le> p) ws))"
proof (induction ws arbitrary: a)
  case Nil
  then show ?case by (simp add: walk_none)
next
  case (Cons w ws)
  then have nx: "next (h a) = Some w" and rest: "is_chain h (Some w) (w # ws)" by auto
  show ?case
  proof (cases "taskPriority (h w) \<le> p")
    case True
    with nx have "walk h p a = walk h p w" by (rule walk_go)
    with Cons.IH [OF rest] True show ?thesis by simp
  next
    case False
    with nx have "walk h p a = Some a" by (rule walk_stop)
    with False show ?thesis by simp
  qed
qed

lemma is_chain_insert:
  assumes chain: "is_chain h p (xs @ ptr # post)" and fresh: "n \<notin> set (xs @ ptr # post)"
    and ptr: "next (h' ptr) = Some n" and new: "next (h' n) = next (h ptr)"
    and others: "\<And>x. x \<noteq> ptr \<Longrightarrow> x \<noteq> n \<Longrightarrow> next (h' x) = next (h x)"
  shows "is_chain h' p (xs @ ptr # n # post)"
proof -
  from chain have "distinct (xs @ ptr # post)" by (rule is_chain_distinct)
  with chain fresh show ?thesis
  proof (induction xs arbitrary: p)
    case Nil
    then have p: "p = Some ptr" and post: "is_chain h (next (h ptr)) post" by auto
    from Nil have "ptr \<notin> set post" "n \<notin> set post" by auto
    then have "is_chain h' (next (h ptr)) post"
      by (intro is_chain_frame [OF post] others) auto
    with p ptr new show ?case by simp
  next
    case (Cons x xs)
    then have p: "p = Some x" and rest: "is_chain h (next (h x)) (xs @ ptr # post)" by auto
    from Cons.prems have "x \<noteq> ptr" "x \<noteq> n" by auto
    then have same: "next (h' x) = next (h x)" by (rule others)
    from Cons.prems have "is_chain h' (next (h x)) (xs @ ptr # n # post)"
      by (intro Cons.IH [OF rest]) auto
    with p same show ?case by simp
  qed
qed


subsection \<open>What each operation returns\<close>

lemma execute_Some:
  "taskFunc (heap s a) = Some f \<Longrightarrow>
   execute a s = Inr (s\<lparr>trace := trace s @ [Diag DEBUG, Dispatch a (look s)],
                          pending := pending s @ [(a, retry (heap s a))]\<rparr>)"
  by (simp add: execute_def diag_def look_def)

lemma execute_None: "taskFunc (heap s a) = None \<Longrightarrow> execute a s = Inl TypeError"
  by (simp add: execute_def diag_def)

lemma emit_ready_next:
  "next (heap s a) = Some b \<Longrightarrow> taskFunc (heap s b) = Some f \<Longrightarrow>
   emit_ready a s =
     Inr (s\<lparr>trace := trace s @ [Ready a, Diag INFO, Diag INFO, Diag DEBUG,
                Dispatch b (Some b, tail s, length_tm s, tracked s - {id_task (heap s a)})],
            tracked := tracked s - {id_task (heap s a)},
            head := Some b,
            pending := pending s @ [(b, retry (heap s b))],
            length_tm := length_tm s - 1\<rparr>)"
  by (simp add: emit_ready_def on_ready_def execute_def diag_def look_def)

lemma emit_ready_last:
  "next (heap s a) = None \<Longrightarrow>
   emit_ready a s =
     Inr (s\<lparr>trace := trace s @ [Ready a, Diag INFO, Diag INFO,
                Complete (None, None, length_tm s, tracked s - {id_task (heap s a)})],
            tracked := tracked s - {id_task (heap s a)},
            head := None, tail := None,
            length_tm := length_tm s - 1\<rparr>)"
  by (simp add: emit_ready_def on_ready_def diag_def look_def)

lemma emit_ready_throws:
  "next (heap s a) = Some b \<Longrightarrow> taskFunc (heap s b) = None \<Longrightarrow> emit_ready a s = Inl TypeError"
  by (simp add: emit_ready_def on_ready_def execute_def diag_def)

lemma new_TMTask_fields [simp]:
  "id_task (new_TMTask params now d) = id_of params now"
  "taskPriority (new_TMTask params now d) = priority_of params"
  "taskFunc (new_TMTask params now d) = func_of params d"
  "retry (new_TMTask params now d) = p_retry params"
  "next (new_TMTask params now d) = p_next params"
  by (simp_all add: new_TMTask_def)

lemma diag_fields [simp]:
  "head (diag l s) = head s" "tail (diag l s) = tail s" "length_tm (diag l s) = length_tm s"
  "tracked (diag l s) = tracked s" "heap (diag l s) = heap s" "allocated (diag l s) = allocated s"
  "pending (diag l s) = pending s" "defaultTaskFunc (diag l s) = defaultTaskFunc s"
  "trace (diag l s) = trace s @ [Diag l]"
  by (simp_all add: diag_def)

lemma enqueue_dropped:
  "id_of params now \<in> tracked s \<Longrightarrow> \<not> allowDuplicate \<Longrightarrow>
   enqueueTask params allowDuplicate now s =
     Inr (s\<lparr>trace := trace s @ (if p_debug_task params then [Diag DEBUG] else []) @ [Diag LOG, Diag WARN]\<rparr>)"
  by (simp add: enqueueTask_def diag_def)

lemma enqueue_first:
  assumes "head s = None" and "id_of params now \<notin> tracked s \<or> allowDuplicate"
    and "func_of params (defaultTaskFunc s) = Some f"
  shows "enqueueTask params allowDuplicate now s =
     Inr (count_up (s\<lparr>trace := trace s @ (if p_debug_task params then [Diag DEBUG] else [])
                               @ [Diag LOG, Diag LOG, Diag DEBUG,
                                  Dispatch (allocated s)
                                    (Some (allocated s), Some (allocated s), length_tm s,
                                     insert (id_of params now) (tracked s))],
            tracked := insert (id_of params now) (tracked s),
            heap := (heap s)(allocated s := new_TMTask params now (defaultTaskFunc s)),
            allocated := Suc (allocated s),
            head := Some (allocated s), tail := Some (allocated s),
            pending := pending s @ [(allocated s, p_retry params)]\<rparr>))"
  using assms
  by (auto simp add: enqueueTask_def execute_def Let_def diag_def look_def
           intro!: arg_cong [where f = count_up])

lemma enqueue_linked:
  assumes "head s = Some a" and "walk (heap s) (priority_of params) a = Some pointer"
    and "id_of params now \<notin> tracked s \<or> allowDuplicate"
  shows "enqueueTask params allowDuplicate now s =
     Inr (count_up (s\<lparr>trace := trace s @ (if p_debug_task params then [Diag DEBUG] else [])
                               @ [Diag LOG, Diag LOG],
            tracked := insert (id_of params now) (tracked s),
            heap := (heap s)
              (allocated s := (new_TMTask params now (defaultTaskFunc s))
                                \<lparr>next := next (heap s pointer)\<rparr>,
               pointer := (heap s pointer)\<lparr>next := Some (allocated s)\<rparr>),
            allocated := Suc (allocated s),
            tail := (if next (heap s pointer) = None then Some (allocated s) else tail s)\<rparr>))"
  using assms
  by (auto simp add: enqueueTask_def Let_def diag_def intro!: arg_cong [where f = count_up])

lemma count_up_fields [simp]:
  "head (count_up s) = head s" "tail (count_up s) = tail s" "length_tm (count_up s) = length_tm s + 1"
  "tracked (count_up s) = tracked s" "heap (count_up s) = heap s" "allocated (count_up s) = allocated s"
  "pending (count_up s) = pending s" "defaultTaskFunc (count_up s) = defaultTaskFunc s"
  "completed (count_up s) = completed s"
  "trace (count_up s) = trace s @ (if 10 < length_tm s + 1 then [Diag WARN] else [])"
  by (simp_all add: count_up_def completed_def Let_def)

lemma is_chain_next:
  "is_chain h (Some a) (a # as) \<Longrightarrow> next (h a) = (case as of [] \<Rightarrow> None | b # bs \<Rightarrow> Some b)"
  by (cases as) auto

lemma first_None: "((case xs of [] \<Rightarrow> None | b # bs \<Rightarrow> Some b) = None) = (xs = [])"
  by (cases xs) simp_all

lemma sorted_dropWhile_above:
  "sorted (map f ws) \<Longrightarrow> x \<in> set (dropWhile (\<lambda>y. f y \<le> (p::int)) ws) \<Longrightarrow> p < f x"
  by (induction ws) (auto split: if_splits)

text \<open>
  \<open>enqueueTask\<close> on a chain that is not empty: the loop ends, and the new object is
  linked after the waiting tasks the loop has passed.
\<close>

lemma linked_insert:
  assumes chain: "is_chain (heap s) (head s) (a # ws)"
    and alloc: "\<forall>x\<in>set (a # ws). x < allocated s"
    and fresh: "if id_of params now \<in> tracked s then allowDuplicate else True"
  shows "\<exists>s'. enqueueTask params allowDuplicate now s = Inr s'
      \<and> is_chain (heap s') (head s')
           (a # takeWhile (\<lambda>x. taskPriority (heap s x) \<le> priority_of params) ws
              @ allocated s # dropWhile (\<lambda>x. taskPriority (heap s x) \<le> priority_of params) ws)
      \<and> head s' = Some a
      \<and> tail s' = (if dropWhile (\<lambda>x. taskPriority (heap s x) \<le> priority_of params) ws = []
                   then Some (allocated s) else tail s)
      \<and> length_tm s' = length_tm s + 1
      \<and> allocated s' = Suc (allocated s)
      \<and> tracked s' = insert (id_of params now) (tracked s)
      \<and> pending s' = pending s
      \<and> completed s' = completed s
      \<and> defaultTaskFunc s' = defaultTaskFunc s
      \<and> (\<forall>x. heap s' x\<lparr>next := None\<rparr> =
               (if x = allocated s then new_TMTask params now (defaultTaskFunc s) else heap s x)\<lparr>next := None\<rparr>)"
proof -
  define pre where "pre = takeWhile (\<lambda>x. taskPriority (heap s x) \<le> priority_of params) ws"
  define post where "post = dropWhile (\<lambda>x. taskPriority (heap s x) \<le> priority_of params) ws"
  define ptr where "ptr = last (a # pre)"
  define xs where "xs = butlast (a # pre)"
  define n where "n = allocated s"
  define h' where "h' = (heap s)(n := (new_TMTask params now (defaultTaskFunc s))\<lparr>next := next (heap s ptr)\<rparr>,
                      ptr := (heap s ptr)\<lparr>next := Some n\<rparr>)"
  define s' where "s' = count_up (s\<lparr>trace := trace s @ (if p_debug_task params then [Diag DEBUG] else [])
                               @ [Diag LOG, Diag LOG],
            tracked := insert (id_of params now) (tracked s),
            heap := h', allocated := Suc n,
            tail := (if next (heap s ptr) = None then Some n else tail s)\<rparr>)"
  from chain have hd: "head s = Some a" and chain': "is_chain (heap s) (Some a) (a # ws)"
    by simp_all
  from fresh have fresh': "id_of params now \<notin> tracked s \<or> allowDuplicate"
    by (simp split: if_splits)
  have "walk (heap s) (priority_of params) a = Some ptr"
    unfolding ptr_def pre_def using chain' by (rule walk_chain)
  from enqueue_linked [OF hd this fresh']
  have res: "enqueueTask params allowDuplicate now s = Inr s'"
    unfolding s'_def h'_def n_def .
  have xs_ptr: "xs @ [ptr] = a # pre"
    unfolding xs_def ptr_def by (rule append_butlast_last_id) simp
  have ws: "ws = pre @ post"
    unfolding pre_def post_def by simp
  have split: "a # ws = xs @ ptr # post"
    using xs_ptr ws by simp
  then have ptr_in: "ptr \<in> set (a # ws)"
    by simp
  from chain' split have whole: "is_chain (heap s) (Some a) (xs @ ptr # post)"
    by simp
  then have "is_chain (heap s) (Some ptr) (ptr # post)"
    by (rule is_chain_append)
  then have "next (heap s ptr) = (case post of [] \<Rightarrow> None | b # bs \<Rightarrow> Some b)"
    by (rule is_chain_next)
  then have nx_None: "(next (heap s ptr) = None) = (post = [])"
    by (simp only: first_None)
  from alloc have n_fresh: "n \<notin> set (a # ws)"
    unfolding n_def by auto
  with ptr_in have ne: "ptr \<noteq> n" by metis
  have "is_chain h' (Some a) (xs @ ptr # n # post)"
  proof (rule is_chain_insert [OF whole])
    show "n \<notin> set (xs @ ptr # post)"
      using n_fresh split by simp
    show "next (h' ptr) = Some n" by (simp add: h'_def)
    show "next (h' n) = next (heap s ptr)" using ne by (simp add: h'_def)
    show "next (h' x) = next (heap s x)" if "x \<noteq> ptr" "x \<noteq> n" for x
      using that by (simp add: h'_def)
  qed
  moreover have "xs @ ptr # n # post = a # pre @ n # post"
    using xs_ptr by simp
  ultimately have new_chain: "is_chain h' (Some a) (a # pre @ n # post)"
    by simp
  have objs: "h' x\<lparr>next := None\<rparr> =
        (if x = n then new_TMTask params now (defaultTaskFunc s) else heap s x)\<lparr>next := None\<rparr>" for x
    using ne by (simp add: h'_def)
  have "is_chain (heap s') (head s') (a # pre @ n # post)"
    using new_chain hd by (simp add: s'_def)
  moreover have "head s' = Some a" using hd by (simp add: s'_def)
  moreover have "tail s' = (if post = [] then Some n else tail s)"
    using nx_None by (simp add: s'_def)
  moreover have "length_tm s' = length_tm s + 1" by (simp add: s'_def)
  moreover have "allocated s' = Suc n" by (simp add: s'_def)
  moreover have "tracked s' = insert (id_of params now) (tracked s)" by (simp add: s'_def)
  moreover have "pending s' = pending s" by (simp add: s'_def)
  moreover have "completed s' = completed s" by (simp add: s'_def completed_def)
  moreover have "defaultTaskFunc s' = defaultTaskFunc s" by (simp add: s'_def)
  moreover have "\<forall>x. heap s' x\<lparr>next := None\<rparr> =
        (if x = n then new_TMTask params now (defaultTaskFunc s) else heap s x)\<lparr>next := None\<rparr>"
    using objs by (simp add: s'_def)
  ultimately show ?thesis using res unfolding pre_def post_def n_def by blast
qed

subsection \<open>Placing a task among the waiting ones\<close>

lemma place_Nil [simp]: "place f x [] = [x]" by (simp add: place_def)
lemma place_Cons [simp]: "place f x (w # ws) = (if f w \<le> f x then w # place f x ws else x # w # ws)"
  by (simp add: place_def)

subsection \<open>The steady regime is kept by a submission\<close>

lemma same_but_next:
  assumes "r\<lparr>next := None\<rparr> = r'\<lparr>next := None\<rparr>"
  shows "id_task r = id_task r'" "taskPriority r = taskPriority r'" "taskFunc r = taskFunc r'"
    "retry r = retry r'"
proof -
  have "id_task (r\<lparr>next := None\<rparr>) = id_task (r'\<lparr>next := None\<rparr>)"
    "taskPriority (r\<lparr>next := None\<rparr>) = taskPriority (r'\<lparr>next := None\<rparr>)"
    "taskFunc (r\<lparr>next := None\<rparr>) = taskFunc (r'\<lparr>next := None\<rparr>)"
    "retry (r\<lparr>next := None\<rparr>) = retry (r'\<lparr>next := None\<rparr>)"
    using assms by simp_all
  then show "id_task r = id_task r'" "taskPriority r = taskPriority r'" "taskFunc r = taskFunc r'"
    "retry r = retry r'"
    by simp_all
qed

lemma set_place [simp]: "set (place f x ws) = insert x (set ws)"
  by (induction ws) auto

lemma length_place [simp]: "length (place f x ws) = Suc (length ws)"
  by (induction ws) auto

lemma last_place:
  "last (a # place f x ws) = (if dropWhile (\<lambda>y. f y \<le> f x) ws = [] then x else last (a # ws))"
  by (induction ws arbitrary: a) auto

lemma completed_update [simp]:
  "completed (s\<lparr>trace := es\<rparr>) = concat (map ready_of es)"
  "completed (s\<lparr>head := x1\<rparr>) = completed s"
  "completed (s\<lparr>tail := x2\<rparr>) = completed s"
  "completed (s\<lparr>length_tm := x3\<rparr>) = completed s"
  "completed (s\<lparr>tracked := x4\<rparr>) = completed s"
  "completed (s\<lparr>heap := x5\<rparr>) = completed s"
  "completed (s\<lparr>allocated := x6\<rparr>) = completed s"
  "completed (s\<lparr>pending := x7\<rparr>) = completed s"
  by (simp_all add: completed_def)

lemma completed_fold: "concat (map ready_of (trace s)) = completed s"
  by (simp add: completed_def)

lemma steady_new: "steady (new_TaskManager d) []"
  by (simp add: steady_def new_TaskManager_def)

lemma steady_first:
  assumes "steady s []" and "func_of q (defaultTaskFunc s) \<noteq> None" and "p_next q = None"
  shows "\<exists>s'. enqueueTask q dup t s = Inr s' \<and> steady s' [allocated s]
     \<and> key s' (allocated s) = ticket (q, t) \<and> completed s' = completed s
     \<and> defaultTaskFunc s' = defaultTaskFunc s"
proof -
  from assms(1) have hd: "head s = None" and tr: "tracked s = {}" and pe: "pending s = []"
    and len: "length_tm s = 0"
    by (simp_all add: steady_def)
  from assms(2) obtain f where f: "func_of q (defaultTaskFunc s) = Some f" by auto
  from tr have nd: "id_of q t \<notin> tracked s \<or> dup" by simp
  note res = enqueue_first [OF hd nd f]
  show ?thesis
    unfolding res
    using assms(3) by (simp add: steady_def key_def ticket_def f tr pe len completed_def)
qed


lemma steady_later:
  assumes st: "steady s (a # ws)" and fresh: "if id_of q t \<in> tracked s then dup else True"
    and fn: "func_of q (defaultTaskFunc s) \<noteq> None"
  shows "\<exists>s'. enqueueTask q dup t s = Inr s'
     \<and> steady s' (a # place (\<lambda>x. taskPriority (heap s' x)) (allocated s) ws)
     \<and> key s' (allocated s) = ticket (q, t)
     \<and> (\<forall>x\<in>set (a # ws). key s' x = key s x)
     \<and> completed s' = completed s
     \<and> defaultTaskFunc s' = defaultTaskFunc s
     \<and> allocated s' = Suc (allocated s)"
proof -
  define n where "n = allocated s"
  from st have chain: "is_chain (heap s) (head s) (a # ws)"
    and ok: "\<forall>x\<in>set (a # ws). x < allocated s \<and> taskFunc (heap s x) \<noteq> None"
    and tl: "tail s = Some (last (a # ws))"
    and len: "length_tm s = int (length (a # ws))"
    and pe: "pending s = [(a, retry (heap s a))]"
    and tr: "tracked s \<subseteq> set (map (\<lambda>x. id_task (heap s x)) (a # ws))"
    by (simp_all add: steady_def list_all_iff)
  from ok have alloc: "\<forall>x\<in>set (a # ws). x < allocated s" by blast
  from linked_insert [OF chain alloc fresh] obtain s' where
    res: "enqueueTask q dup t s = Inr s'"
    and ch': "is_chain (heap s') (head s')
           (a # takeWhile (\<lambda>x. taskPriority (heap s x) \<le> priority_of q) ws
              @ n # dropWhile (\<lambda>x. taskPriority (heap s x) \<le> priority_of q) ws)"
    and tl': "tail s' = (if dropWhile (\<lambda>x. taskPriority (heap s x) \<le> priority_of q) ws = []
                   then Some n else tail s)"
    and len': "length_tm s' = length_tm s + 1"
    and al': "allocated s' = Suc n"
    and tr': "tracked s' = insert (id_of q t) (tracked s)"
    and pe': "pending s' = pending s"
    and co': "completed s' = completed s"
    and de': "defaultTaskFunc s' = defaultTaskFunc s"
    and objs: "\<forall>x. heap s' x\<lparr>next := None\<rparr> =
               (if x = n then new_TMTask q t (defaultTaskFunc s) else heap s x)\<lparr>next := None\<rparr>"
    unfolding n_def by blast
  from alloc have old: "x \<noteq> n" if "x \<in> set (a # ws)" for x
    using that unfolding n_def by auto
  have at_n: "heap s' n\<lparr>next := None\<rparr> = (new_TMTask q t (defaultTaskFunc s))\<lparr>next := None\<rparr>"
    using objs by simp
  have at_old: "heap s' x\<lparr>next := None\<rparr> = (heap s x)\<lparr>next := None\<rparr>" if "x \<in> set (a # ws)" for x
    using objs old [OF that] by simp
  have key_n: "key s' n = ticket (q, t)"
    using same_but_next [OF at_n] by (simp add: key_def ticket_def)
  have fn_n: "taskFunc (heap s' n) \<noteq> None"
    using same_but_next [OF at_n] fn by simp
  have key_old: "key s' x = key s x" if "x \<in> set (a # ws)" for x
    using same_but_next [OF at_old [OF that]] by (simp add: key_def)
  have fn_old: "taskFunc (heap s' x) \<noteq> None" if "x \<in> set (a # ws)" for x
    using same_but_next [OF at_old [OF that]] ok that by auto
  have retry_a: "retry (heap s' a) = retry (heap s a)"
    using same_but_next [OF at_old [of a]] by simp
  have pl: "takeWhile (\<lambda>x. taskPriority (heap s x) \<le> priority_of q) ws
              @ n # dropWhile (\<lambda>x. taskPriority (heap s x) \<le> priority_of q) ws
            = place (\<lambda>x. taskPriority (heap s' x)) n ws"
  proof -
    have pn: "taskPriority (heap s' n) = priority_of q"
      using key_n by (simp add: key_def ticket_def)
    have po: "taskPriority (heap s' x) = taskPriority (heap s x)" if "x \<in> set ws" for x
      using key_old [of x] that by (simp add: key_def)
    have "takeWhile (\<lambda>x. taskPriority (heap s' x) \<le> taskPriority (heap s' n)) ws
          = takeWhile (\<lambda>x. taskPriority (heap s x) \<le> priority_of q) ws"
      by (rule takeWhile_cong) (simp_all add: pn po)
    moreover have "dropWhile (\<lambda>x. taskPriority (heap s' x) \<le> taskPriority (heap s' n)) ws
          = dropWhile (\<lambda>x. taskPriority (heap s x) \<le> priority_of q) ws"
      by (rule dropWhile_cong) (simp_all add: pn po)
    ultimately show ?thesis by (simp add: place_def)
  qed
  have dw: "dropWhile (\<lambda>x. taskPriority (heap s x) \<le> priority_of q) ws
          = dropWhile (\<lambda>y. taskPriority (heap s' y) \<le> taskPriority (heap s' n)) ws"
  proof -
    have pn: "taskPriority (heap s' n) = priority_of q"
      using key_n by (simp add: key_def ticket_def)
    have po: "taskPriority (heap s' x) = taskPriority (heap s x)" if "x \<in> set ws" for x
      using key_old [of x] that by (simp add: key_def)
    show ?thesis by (rule dropWhile_cong) (simp_all add: pn po)
  qed
  let ?as = "a # place (\<lambda>x. taskPriority (heap s' x)) n ws"
  have c1: "is_chain (heap s') (head s') ?as" using ch' pl by simp
  have c2: "list_all (\<lambda>x. x < allocated s' \<and> taskFunc (heap s' x) \<noteq> None) ?as"
    using alloc fn_n fn_old al' unfolding n_def list_all_iff by auto
  have c3: "tail s' = (if ?as = [] then None else Some (last ?as))"
    using tl' tl dw by (simp add: last_place del: last.simps)
  have c4: "length_tm s' = int (length ?as)" using len' len by simp
  have c5: "pending s' = (case ?as of [] \<Rightarrow> [] | b # bs \<Rightarrow> [(b, retry (heap s' b))])"
    using pe' pe retry_a by simp
  have c6: "tracked s' \<subseteq> set (map (\<lambda>x. id_task (heap s' x)) ?as)"
  proof
    fix i assume "i \<in> tracked s'"
    then consider "i = id_of q t" | "i \<in> tracked s" using tr' by auto
    then show "i \<in> set (map (\<lambda>x. id_task (heap s' x)) ?as)"
    proof cases
      case 1
      with key_n have "i = id_task (heap s' n)" by (simp add: key_def ticket_def)
      then show ?thesis by simp
    next
      case 2
      with tr obtain x where x: "x \<in> set (a # ws)" and "i = id_task (heap s x)" by auto
      with key_old [OF x] have "i = id_task (heap s' x)" by (simp add: key_def)
      with x show ?thesis by auto
    qed
  qed
  from c1 c2 c3 c4 c5 c6 have "steady s' ?as" unfolding steady_def by blast
  with res key_n key_old co' de' al' show ?thesis unfolding n_def by blast
qed

subsection \<open>The steady regime is kept when the head's promise is fulfilled\<close>

lemma steady_fulfil:
  assumes st: "steady s (a # as)"
  shows "\<exists>s'. settle 0 Fulfilled t s = Inr s' \<and> steady s' as
     \<and> completed s' = completed s @ [a] \<and> heap s' = heap s
     \<and> defaultTaskFunc s' = defaultTaskFunc s"
proof -
  from st have chain: "is_chain (heap s) (Some a) (a # as)" and hd: "head s = Some a"
    and ok: "\<forall>x\<in>set (a # as). x < allocated s \<and> taskFunc (heap s x) \<noteq> None"
    and tl: "tail s = Some (last (a # as))"
    and len: "length_tm s = int (length (a # as))"
    and pe: "pending s = [(a, retry (heap s a))]"
    and tr: "tracked s \<subseteq> set (map (\<lambda>x. id_task (heap s x)) (a # as))"
    by (simp_all add: steady_def list_all_iff)
  from pe have step: "settle 0 Fulfilled t s = emit_ready a (s\<lparr>pending := []\<rparr>)"
    by (simp add: settle_def)
  from chain have nx: "next (heap s a) = (case as of [] \<Rightarrow> None | b # bs \<Rightarrow> Some b)"
    by (rule is_chain_next)
  from chain have rest: "is_chain (heap s) (next (heap s a)) as" by simp
  from chain have "distinct (a # as)" by (rule is_chain_distinct)
  then have a_out: "a \<notin> set as" by simp
  show ?thesis
  proof (cases as)
    case Nil
    with nx have "next (heap (s\<lparr>pending := []\<rparr>) a) = None" by simp
    from emit_ready_last [OF this] step Nil len tr show ?thesis
      by (auto simp add: steady_def completed_fold)
  next
    case (Cons b bs)
    with nx have n: "next (heap (s\<lparr>pending := []\<rparr>) a) = Some b" by simp
    from ok Cons obtain f where "taskFunc (heap s b) = Some f" by auto
    then have f: "taskFunc (heap (s\<lparr>pending := []\<rparr>) b) = Some f" by simp
    from rest Cons n have rest': "is_chain (heap s) (Some b) (b # bs)" by simp
    have ids: "tracked s - {id_task (heap s a)} \<subseteq> set (map (\<lambda>x. id_task (heap s x)) (b # bs))"
      using tr Cons by auto
    from emit_ready_next [OF n f] step Cons len tl ok rest' ids show ?thesis
      by (simp add: steady_def list_all_iff completed_fold)
  qed
qed

subsection \<open>A task read back as parameters\<close>

lemma completed_diag [simp]: "completed (diag l s) = completed s"
  by (simp add: diag_def completed_def)

lemma params_of_fields [simp]:
  "priority_of (params_of t) = taskPriority t"
  "id_of (params_of t) now = (if id_task t = 0 then now else id_task t)"
  "func_of (params_of t) d = (case taskFunc t of None \<Rightarrow> d | Some g \<Rightarrow> Some g)"
  by (simp_all add: params_of_def priority_of_def id_of_def func_of_def)

lemmas script_simps =
  new_TaskManager_def sampleTask_def enqueueTask_def new_TMTask_def id_of_def priority_of_def
  func_of_def execute_def diag_def look_def count_up_def skip_def emit_ready_def on_ready_def
  settle_def retry_catch_def params_of_def demote_exact completed_def Let_def
  walk_none walk_stop walk_go


subsection \<open>A chain with no promise left\<close>

lemma enqueue_quiet:
  "enqueueTask q dup t s = Inr s' \<Longrightarrow> head s = Some a \<Longrightarrow>
   emitted s' = emitted s \<and> pending s' = pending s \<and> head s' = Some a
   \<and> length_tm s \<le> length_tm s' \<and> tracked s \<subseteq> tracked s'"
  by (auto simp: enqueueTask_def Let_def emitted_def count_up_def diag_def
           split: if_splits option.splits)

lemma stalled_step:
  assumes st: "stalled s (a # ws)" and c: "c \<noteq> Skip"
  shows "\<exists>s' ws'. step c s = Inr s' \<and> stalled s' (a # ws') \<and> emitted s' = emitted s
     \<and> length_tm s \<le> length_tm s' \<and> tracked s \<subseteq> tracked s'"
proof (cases c)
  case (EnqueueTask q dup t)
  from st have chain: "is_chain (heap s) (head s) (a # ws)"
    and alloc: "\<forall>x\<in>set (a # ws). x < allocated s" and pe: "pending s = []"
    by (simp_all add: stalled_def list_all_iff)
  from chain have hd: "head s = Some a" by simp
  show ?thesis
  proof (cases "if id_of q t \<in> tracked s then dup else True")
    case True
    let ?P = "\<lambda>x. taskPriority (heap s x) \<le> priority_of q"
    from linked_insert [OF chain alloc True] obtain s' where
      res: "enqueueTask q dup t s = Inr s'"
      and ch: "is_chain (heap s') (head s') (a # takeWhile ?P ws @ allocated s # dropWhile ?P ws)"
      and al: "allocated s' = Suc (allocated s)"
      by (elim exE conjE) (rule that; assumption)
    from enqueue_quiet [OF res hd] have quiet: "emitted s' = emitted s" "pending s' = pending s"
      "length_tm s \<le> length_tm s'" "tracked s \<subseteq> tracked s'"
      by simp_all
    have "set (takeWhile ?P ws @ allocated s # dropWhile ?P ws) = insert (allocated s) (set ws)"
      using set_place [of "\<lambda>x. taskPriority (heap s x)" _ ws] by (metis takeWhile_dropWhile_id set_append list.simps(15) Un_insert_right)
    with alloc al have "\<forall>x\<in>set (a # takeWhile ?P ws @ allocated s # dropWhile ?P ws). x < allocated s'"
      by auto
    with ch quiet pe have "stalled s' (a # takeWhile ?P ws @ allocated s # dropWhile ?P ws)"
      by (simp add: stalled_def list_all_iff)
    with res quiet EnqueueTask show ?thesis by auto
  next
    case False
    then have "id_of q t \<in> tracked s" "\<not> dup" by (simp_all split: if_splits)
    from enqueue_dropped [OF this] st EnqueueTask show ?thesis
      by (intro exI [of _ "s\<lparr>trace := trace s @ (if p_debug_task q then [Diag DEBUG] else []) @ [Diag LOG, Diag WARN]\<rparr>"] exI [of _ ws])
         (simp add: stalled_def emitted_def)
  qed
next
  case Skip
  with c show ?thesis by simp
next
  case (Settle k how t)
  from st have "pending s = []" by (simp add: stalled_def)
  then have "settle k how t s = Inr s" by (simp add: settle_def)
  with st Settle show ?thesis by auto
qed

lemma stalled_run:
  assumes "stalled s (a # ws)" and "Skip \<notin> set cs"
  shows "\<exists>s' ws'. run cs s = Inr s' \<and> stalled s' (a # ws') \<and> emitted s' = emitted s
     \<and> length_tm s \<le> length_tm s' \<and> tracked s \<subseteq> tracked s'"
  using assms
proof (induction cs arbitrary: s ws)
  case Nil
  then show ?case by auto
next
  case (Cons c cs)
  from Cons.prems have c: "c \<noteq> Skip" and cs: "Skip \<notin> set cs" by auto
  from stalled_step [OF Cons.prems(1) c] obtain s1 ws1 where
    one: "step c s = Inr s1" and st1: "stalled s1 (a # ws1)" and e1: "emitted s1 = emitted s"
    and l1: "length_tm s \<le> length_tm s1" and t1: "tracked s \<subseteq> tracked s1"
    by (elim exE conjE) (rule that; assumption)
  from Cons.IH [OF st1 cs] obtain s' ws' where
    r: "run cs s1 = Inr s'" and st': "stalled s' (a # ws')" and e': "emitted s' = emitted s1"
    and l': "length_tm s1 \<le> length_tm s'" and t': "tracked s1 \<subseteq> tracked s'"
    by (elim exE conjE) (rule that; assumption)
  from one r have "run (c # cs) s = Inr s'" by simp
  moreover from e1 e' have "emitted s' = emitted s" by simp
  moreover from l1 l' have "length_tm s \<le> length_tm s'" by simp
  moreover from t1 t' have "tracked s \<subseteq> tracked s'" by blast
  ultimately show ?case using st' by blast
qed

subsection \<open>The order of the waiting tasks is kept\<close>

lemma enqueue_keys:
  "enqueueTask q dup t s = Inr s' \<Longrightarrow> x < allocated s \<Longrightarrow> key s' x = key s x"
  by (auto simp: enqueueTask_def Let_def key_def execute_def split: if_splits option.splits sum.splits)

lemma enqueue_frame:
  "enqueueTask q dup t s = Inr s' \<Longrightarrow>
   allocated s \<le> allocated s' \<and> defaultTaskFunc s' = defaultTaskFunc s"
  by (auto simp: enqueueTask_def Let_def execute_def split: if_splits option.splits sum.splits)

lemma fulfil_frame:
  "settle k Fulfilled t s = Inr s' \<Longrightarrow>
   heap s' = heap s \<and> allocated s' = allocated s \<and> defaultTaskFunc s' = defaultTaskFunc s"
  by (auto simp: settle_def emit_ready_def on_ready_def execute_def Let_def
           split: if_splits option.splits sum.splits)

lemma sorted_wrt_place:
  fixes f :: "nat \<Rightarrow> int"
  assumes "sorted_wrt (\<lambda>x y. f x < f y \<or> (f x = f y \<and> x < y)) ws" and "\<forall>x\<in>set ws. x < n"
  shows "sorted_wrt (\<lambda>x y. f x < f y \<or> (f x = f y \<and> x < y)) (place f n ws)"
  using assms by (induction ws) auto

lemma filter_place:
  "n \<notin> A \<Longrightarrow> set ws \<subseteq> A \<Longrightarrow> filter (\<lambda>x. x \<in> A) (place f n ws) = ws"
proof -
  assume n: "n \<notin> A" and ws: "set ws \<subseteq> A"
  have "filter (\<lambda>x. x \<in> A) (place f n ws)
        = filter (\<lambda>x. x \<in> A) (takeWhile (\<lambda>y. f y \<le> f n) ws)
          @ filter (\<lambda>x. x \<in> A) (dropWhile (\<lambda>y. f y \<le> f n) ws)"
    using n by (simp add: place_def)
  also have "\<dots> = filter (\<lambda>x. x \<in> A) ws"
    by (metis filter_append takeWhile_dropWhile_id)
  also have "\<dots> = ws" using ws by (simp add: filter_id_conv subset_iff)
  finally show ?thesis .
qed

lemma steady_trace [simp]: "steady (s\<lparr>trace := es\<rparr>) as = steady s as"
  by (cases as) (simp_all add: steady_def)

lemma orderly_trace [simp]: "orderly (s\<lparr>trace := es\<rparr>) as = orderly s as"
  by (cases as) (simp_all add: orderly_def before_def [abs_def] fifo_def [abs_def])

lemma orderly_new: "orderly (new_TaskManager d) []"
  by (simp add: orderly_def steady_new)

lemma orderly_submit:
  assumes ord: "orderly s as" and fn: "func_of q (defaultTaskFunc s) \<noteq> None"
    and nx: "p_next q = None"
  shows "\<exists>s' as'. enqueueTask q dup t s = Inr s' \<and> orderly s' as' \<and> completed s' = completed s
     \<and> filter (\<lambda>x. x \<in> set as) as' = as \<and> set as' \<subseteq> insert (allocated s) (set as)
     \<and> take 1 as' = (case as of [] \<Rightarrow> [allocated s] | a # ws \<Rightarrow> [a])"
proof (cases as)
  case Nil
  with ord have st: "steady s []" by (simp add: orderly_def)
  from steady_first [OF st fn nx, of dup t] obtain s' where
    res: "enqueueTask q dup t s = Inr s'" and st': "steady s' [allocated s]"
    and co: "completed s' = completed s"
    by (elim exE conjE) (rule that; assumption)
  from st' have "orderly s' [allocated s]" by (simp add: orderly_def)
  with res co Nil show ?thesis by (intro exI [of _ s'] exI [of _ "[allocated s]"]) simp
next
  case (Cons a ws)
  with ord have st: "steady s (a # ws)" and sw: "sorted_wrt (before s) ws"
    and hf: "\<forall>y\<in>set ws. fifo s a y"
    by (simp_all add: orderly_def list_all_iff)
  from st have ok: "\<forall>x\<in>set (a # ws). x < allocated s"
    by (simp add: steady_def list_all_iff)
  show ?thesis
  proof (cases "if id_of q t \<in> tracked s then dup else True")
    case True
    from steady_later [OF st True fn] obtain s' where
      res: "enqueueTask q dup t s = Inr s'"
      and st': "steady s' (a # place (\<lambda>x. taskPriority (heap s' x)) (allocated s) ws)"
      and ko: "\<forall>x\<in>set (a # ws). key s' x = key s x"
      and co: "completed s' = completed s"
      by (elim exE conjE) (rule that; assumption)
    let ?f = "\<lambda>x. taskPriority (heap s' x)"
    let ?ws' = "place ?f (allocated s) ws"
    have pr: "taskPriority (heap s' x) = taskPriority (heap s x)" if "x \<in> set (a # ws)" for x
      using ko that by (auto simp: key_def)
    have "sorted_wrt (\<lambda>x y. ?f x < ?f y \<or> (?f x = ?f y \<and> x < y)) ws"
    proof (rule sorted_wrt_mono_rel [OF _ sw])
      fix x y assume "x \<in> set ws" "y \<in> set ws" "before s x y"
      then show "?f x < ?f y \<or> (?f x = ?f y \<and> x < y)"
        by (simp add: before_def pr)
    qed
    moreover from ok have "\<forall>x\<in>set ws. x < allocated s" by simp
    ultimately have "sorted_wrt (\<lambda>x y. ?f x < ?f y \<or> (?f x = ?f y \<and> x < y)) ?ws'"
      by (rule sorted_wrt_place)
    then have sw': "sorted_wrt (before s') ?ws'"
      by (simp add: before_def [abs_def])
    have hf': "\<forall>y\<in>set ?ws'. fifo s' a y"
    proof
      fix y assume "y \<in> set ?ws'"
      then consider "y = allocated s" | "y \<in> set ws" by auto
      then show "fifo s' a y"
      proof cases
        case 1
        with ok show ?thesis by (simp add: fifo_def)
      next
        case 2
        with hf have "fifo s a y" by simp
        with 2 show ?thesis by (simp add: fifo_def pr)
      qed
    qed
    from st' sw' hf' have ord': "orderly s' (a # ?ws')"
      by (simp add: orderly_def list_all_iff)
    from ok have fresh: "allocated s \<notin> set (a # ws)" by auto
    then have "filter (\<lambda>x. x \<in> set (a # ws)) ?ws' = ws"
      by (intro filter_place) auto
    then have fl: "filter (\<lambda>x. x \<in> set (a # ws)) (a # ?ws') = a # ws" by simp
    have sub: "set (a # ?ws') \<subseteq> insert (allocated s) (set (a # ws))" by auto
    have tk: "take 1 (a # ?ws') = (case a # ws of [] \<Rightarrow> [allocated s] | a # ws \<Rightarrow> [a])" by simp
    from res ord' co fl sub tk show ?thesis
      unfolding Cons by (intro exI [of _ s'] exI [of _ "a # ?ws'"] conjI)
  next
    case False
    then have "id_of q t \<in> tracked s" "\<not> dup" by (simp_all split: if_splits)
    note res = enqueue_dropped [OF this]
    let ?s' = "s\<lparr>trace := trace s @ (if p_debug_task q then [Diag DEBUG] else []) @ [Diag LOG, Diag WARN]\<rparr>"
    from ord have "orderly ?s' as" by simp
    moreover have "completed ?s' = completed s" by (simp add: completed_def)
    moreover have "filter (\<lambda>x. x \<in> set as) as = as" by simp
    ultimately show ?thesis using res Cons by (intro exI [of _ ?s'] exI [of _ as]) auto
  qed
qed

lemma orderly_fulfil:
  assumes ord: "orderly s (a # ws)"
  shows "\<exists>s'. settle 0 Fulfilled t s = Inr s' \<and> orderly s' ws \<and> completed s' = completed s @ [a]"
proof -
  from ord have st: "steady s (a # ws)" and sw: "sorted_wrt (before s) ws"
    by (simp_all add: orderly_def)
  from steady_fulfil [OF st, of t] obtain s' where
    res: "settle 0 Fulfilled t s = Inr s'" and st': "steady s' ws"
    and co: "completed s' = completed s @ [a]" and he: "heap s' = heap s"
    by (elim exE conjE) (rule that; assumption)
  have "case ws of [] \<Rightarrow> True | b # bs \<Rightarrow> sorted_wrt (before s') bs \<and> list_all (fifo s' b) bs"
  proof (cases ws)
    case Nil
    then show ?thesis by simp
  next
    case (Cons b bs)
    with sw have "sorted_wrt (before s) bs" and "\<forall>y\<in>set bs. before s b y" by simp_all
    then show ?thesis unfolding Cons
      by (auto simp: he before_def [abs_def] fifo_def [abs_def] list_all_iff)
  qed
  with st' have "orderly s' ws" by (simp add: orderly_def)
  with res co show ?thesis by blast
qed

lemma before_fifo: "before s x y \<Longrightarrow> fifo s x y"
  by (auto simp: before_def fifo_def)

lemma orderly_fifo: "orderly s as \<Longrightarrow> sorted_wrt (fifo s) as"
proof (cases as)
  case Nil
  then show ?thesis by simp
next
  case (Cons a ws)
  assume "orderly s as"
  with Cons have sw: "sorted_wrt (before s) ws" and hf: "\<forall>y\<in>set ws. fifo s a y"
    by (simp_all add: orderly_def list_all_iff)
  have "sorted_wrt (fifo s) ws"
    by (rule sorted_wrt_mono_rel [OF _ sw]) (rule before_fifo)
  with hf Cons show ?thesis by simp
qed

lemma orderly_allocated: "orderly s as \<Longrightarrow> x \<in> set as \<Longrightarrow> x < allocated s"
  by (simp add: orderly_def steady_def list_all_iff)

lemma fifo_cong:
  "fifo s x y \<Longrightarrow> key s' x = key s x \<Longrightarrow> key s' y = key s y \<Longrightarrow> fifo s' x y"
  by (simp add: fifo_def key_def)

lemma filter_twice:
  "(\<And>x. x \<in> set xs \<Longrightarrow> P x \<Longrightarrow> Q x) \<Longrightarrow> filter P xs = filter P (filter Q xs)"
  by (induction xs) auto

lemma orderly_step:
  assumes ord: "orderly s as" and adm: "admissible (defaultTaskFunc s) c"
  shows "\<exists>s' as' done. step c s = Inr s' \<and> orderly s' as'
     \<and> completed s' = completed s @ done
     \<and> filter (\<lambda>x. x \<in> set as) (done @ as') = as
     \<and> set (done @ as') \<subseteq> insert (allocated s) (set as)
     \<and> set done \<subseteq> set as
     \<and> (case as of [] \<Rightarrow> True | a # ws \<Rightarrow> take 1 (done @ as') = [a])
     \<and> sorted_wrt (fifo s') (done @ as')
     \<and> allocated s \<le> allocated s' \<and> defaultTaskFunc s' = defaultTaskFunc s
     \<and> (\<forall>x. x < allocated s \<longrightarrow> key s' x = key s x)"
proof (cases c)
  case (EnqueueTask q dup t)
  with adm have fn: "func_of q (defaultTaskFunc s) \<noteq> None" and nx: "p_next q = None"
    by simp_all
  from orderly_submit [OF ord fn nx, of dup t] obtain s' as' where
    res: "enqueueTask q dup t s = Inr s'" and ord': "orderly s' as'"
    and co: "completed s' = completed s"
    and fl: "filter (\<lambda>x. x \<in> set as) as' = as"
    and sub: "set as' \<subseteq> insert (allocated s) (set as)"
    and tk: "take 1 as' = (case as of [] \<Rightarrow> [allocated s] | a # ws \<Rightarrow> [a])"
    by (elim exE conjE) (rule that; assumption)
  from tk have hd: "case as of [] \<Rightarrow> True | a # ws \<Rightarrow> take 1 ([] @ as') = [a]"
    by (cases as) simp_all
  from enqueue_frame [OF res] have fr: "allocated s \<le> allocated s'"
    "defaultTaskFunc s' = defaultTaskFunc s" by simp_all
  from enqueue_keys [OF res] have ks: "\<forall>x. x < allocated s \<longrightarrow> key s' x = key s x" by simp
  from ord' have ff: "sorted_wrt (fifo s') as'" by (rule orderly_fifo)
  from res EnqueueTask have st: "step c s = Inr s'" by simp
  show ?thesis
    by (intro exI [of _ s'] exI [of _ as'] exI [of _ "[]"] conjI)
       (use st ord' co fl sub hd ff fr ks in simp_all)
next
  case Skip
  with adm show ?thesis by simp
next
  case (Settle k how t)
  with adm have c: "c = Settle 0 Fulfilled t" by simp
  show ?thesis
  proof (cases as)
    case Nil
    with ord have "pending s = []" by (simp add: orderly_def steady_def)
    then have "step c s = Inr s" by (simp add: c settle_def)
    with ord Nil show ?thesis
      by (intro exI [of _ s] exI [of _ "[]"] exI [of _ "[]"]) simp
  next
    case (Cons a ws)
    from orderly_fulfil [OF ord [unfolded Cons], of t] obtain s' where
      res: "settle 0 Fulfilled t s = Inr s'" and ord': "orderly s' ws"
      and co: "completed s' = completed s @ [a]"
      by (elim exE conjE) (rule that; assumption)
    from fulfil_frame [OF res] have he: "heap s' = heap s" and al: "allocated s' = allocated s"
      and de: "defaultTaskFunc s' = defaultTaskFunc s" by simp_all
    from ord have "sorted_wrt (fifo s) as" by (rule orderly_fifo)
    then have ff: "sorted_wrt (fifo s') ([a] @ ws)"
      by (simp add: Cons he fifo_def [abs_def])
    have ks: "\<forall>x. x < allocated s \<longrightarrow> key s' x = key s x" by (simp add: key_def he)
    from res c have st: "step c s = Inr s'" by simp
    have fl: "filter (\<lambda>x. x \<in> set as) ([a] @ ws) = as" by (simp add: Cons)
    have sub: "set ([a] @ ws) \<subseteq> insert (allocated s) (set as)" by (auto simp: Cons)
    have dn: "set [a] \<subseteq> set as" by (simp add: Cons)
    have hd: "case as of [] \<Rightarrow> True | b # bs \<Rightarrow> take 1 ([a] @ ws) = [b]" by (simp add: Cons)
    show ?thesis
      by (intro exI [of _ s'] exI [of _ ws] exI [of _ "[a]"] conjI)
         (use st ord' co fl sub dn hd ff al de ks in simp_all)
  qed
qed

lemma orderly_run:
  assumes "orderly s as" and "\<forall>c\<in>set cs. admissible (defaultTaskFunc s) c"
  shows "\<exists>s' as' done. run cs s = Inr s' \<and> orderly s' as'
     \<and> completed s' = completed s @ done
     \<and> filter (\<lambda>x. x \<in> set as) (done @ as') = as
     \<and> (\<forall>x\<in>set (done @ as'). x \<in> set as \<or> allocated s \<le> x)
     \<and> (case as of [] \<Rightarrow> True | a # ws \<Rightarrow> take 1 (done @ as') = [a])
     \<and> sorted_wrt (fifo s') (done @ as')
     \<and> allocated s \<le> allocated s' \<and> defaultTaskFunc s' = defaultTaskFunc s
     \<and> (\<forall>x. x < allocated s \<longrightarrow> key s' x = key s x)"
  using assms
proof (induction cs arbitrary: s as)
  case Nil
  from Nil.prems(1) have "sorted_wrt (fifo s) as" by (rule orderly_fifo)
  with Nil.prems(1) show ?case
    by (intro exI [of _ s] exI [of _ as] exI [of _ "[]"]) (simp split: list.split)
next
  case (Cons c cs)
  from Cons.prems have adm: "admissible (defaultTaskFunc s) c"
    and rest: "\<forall>c\<in>set cs. admissible (defaultTaskFunc s) c" by simp_all
  note ord = Cons.prems(1)
  from orderly_step [OF ord adm] obtain s1 as1 d1 where
    st: "step c s = Inr s1" and ord1: "orderly s1 as1"
    and co1: "completed s1 = completed s @ d1"
    and fl1: "filter (\<lambda>x. x \<in> set as) (d1 @ as1) = as"
    and sub1: "set (d1 @ as1) \<subseteq> insert (allocated s) (set as)"
    and dn1: "set d1 \<subseteq> set as"
    and hd1: "case as of [] \<Rightarrow> True | a # ws \<Rightarrow> take 1 (d1 @ as1) = [a]"
    and ff1: "sorted_wrt (fifo s1) (d1 @ as1)"
    and al1: "allocated s \<le> allocated s1" and de1: "defaultTaskFunc s1 = defaultTaskFunc s"
    and ks1: "\<forall>x. x < allocated s \<longrightarrow> key s1 x = key s x"
    by (elim exE conjE) (rule that; assumption)
  from rest de1 have rest1: "\<forall>c\<in>set cs. admissible (defaultTaskFunc s1) c" by simp
  from Cons.IH [OF ord1 rest1] obtain s' as' d2 where
    r: "run cs s1 = Inr s'" and ord': "orderly s' as'"
    and co2: "completed s' = completed s1 @ d2"
    and fl2: "filter (\<lambda>x. x \<in> set as1) (d2 @ as') = as1"
    and new2: "\<forall>x\<in>set (d2 @ as'). x \<in> set as1 \<or> allocated s1 \<le> x"
    and hd2: "case as1 of [] \<Rightarrow> True | a # ws \<Rightarrow> take 1 (d2 @ as') = [a]"
    and ff2: "sorted_wrt (fifo s') (d2 @ as')"
    and al2: "allocated s1 \<le> allocated s'" and de2: "defaultTaskFunc s' = defaultTaskFunc s1"
    and ks2: "\<forall>x. x < allocated s1 \<longrightarrow> key s' x = key s1 x"
    by (elim exE conjE) (rule that; assumption)
  have old: "x < allocated s" if "x \<in> set as" for x
    using ord that by (rule orderly_allocated)
  have old1: "x < allocated s1" if "x \<in> set (d1 @ as1)" for x
  proof -
    from that consider "x \<in> set d1" | "x \<in> set as1" by auto
    then show ?thesis
    proof cases
      case 1
      with dn1 have "x \<in> set as" by blast
      then have "x < allocated s" by (rule old)
      with al1 show ?thesis by simp
    next
      case 2
      with ord1 show ?thesis by (rule orderly_allocated)
    qed
  qed
  have c1: "run (c # cs) s = Inr s'" using st r by simp
  have c3: "completed s' = completed s @ (d1 @ d2)" using co1 co2 by simp
  have c4: "filter (\<lambda>x. x \<in> set as) ((d1 @ d2) @ as') = as"
  proof -
    have "filter (\<lambda>x. x \<in> set as) (d2 @ as')
          = filter (\<lambda>x. x \<in> set as) (filter (\<lambda>x. x \<in> set as1) (d2 @ as'))"
    proof -
      have "x \<in> set as1" if "x \<in> set (d2 @ as')" "x \<in> set as" for x
      proof -
        from that(2) have "x < allocated s" by (rule old)
        with al1 have "\<not> allocated s1 \<le> x" by simp
        with new2 that(1) show ?thesis by blast
      qed
      then show ?thesis by (rule filter_twice)
    qed
    also have "\<dots> = filter (\<lambda>x. x \<in> set as) as1" by (simp only: fl2)
    finally have "filter (\<lambda>x. x \<in> set as) (d1 @ d2 @ as') = filter (\<lambda>x. x \<in> set as) (d1 @ as1)"
      by simp
    with fl1 show ?thesis by simp
  qed
  have c5: "\<forall>x\<in>set ((d1 @ d2) @ as'). x \<in> set as \<or> allocated s \<le> x"
  proof
    fix x assume "x \<in> set ((d1 @ d2) @ as')"
    then consider "x \<in> set d1" | "x \<in> set (d2 @ as')" by auto
    then show "x \<in> set as \<or> allocated s \<le> x"
    proof cases
      case 1
      with sub1 show ?thesis by auto
    next
      case 2
      with new2 have "x \<in> set as1 \<or> allocated s1 \<le> x" by blast
      with sub1 al1 show ?thesis by auto
    qed
  qed
  have c5': "case as of [] \<Rightarrow> True | a # ws \<Rightarrow> take 1 ((d1 @ d2) @ as') = [a]"
  proof (cases as)
    case Nil
    then show ?thesis by simp
  next
    case (Cons a ws)
    with hd1 have one: "take 1 (d1 @ as1) = [a]" by simp
    show ?thesis
    proof (cases d1)
      case Nil
      with one obtain bs where "as1 = a # bs" by (cases as1) simp_all
      with hd2 Nil Cons show ?thesis by simp
    next
      case (Cons b bs)
      with one \<open>as = a # ws\<close> show ?thesis by simp
    qed
  qed
  have c6: "sorted_wrt (fifo s') ((d1 @ d2) @ as')"
  proof -
    have a: "sorted_wrt (fifo s') d1"
    proof (rule sorted_wrt_mono_rel)
      from ff1 show "sorted_wrt (fifo s1) d1" by (simp add: sorted_wrt_append)
      fix x y assume xy: "x \<in> set d1" "y \<in> set d1" and f: "fifo s1 x y"
      from xy have "x < allocated s1" "y < allocated s1" by (simp_all add: old1)
      with ks2 have "key s' x = key s1 x" "key s' y = key s1 y" by simp_all
      with f show "fifo s' x y" by (rule fifo_cong)
    qed
    have b: "fifo s' x y" if "x \<in> set d1" "y \<in> set (d2 @ as')" for x y
    proof -
      from that(1) have x: "x < allocated s1" by (simp add: old1)
      from new2 that(2) have "y \<in> set as1 \<or> allocated s1 \<le> y" by blast
      then show ?thesis
      proof
        assume y: "y \<in> set as1"
        with ff1 that(1) have f: "fifo s1 x y" by (simp add: sorted_wrt_append)
        from y have "y < allocated s1" by (simp add: old1)
        with x ks2 have "key s' x = key s1 x" "key s' y = key s1 y" by simp_all
        with f show ?thesis by (rule fifo_cong)
      next
        assume "allocated s1 \<le> y"
        with x show ?thesis by (simp add: fifo_def)
      qed
    qed
    from a b ff2 show ?thesis by (simp add: sorted_wrt_append)
  qed
  have c7: "allocated s \<le> allocated s'" using al1 al2 by simp
  have c8: "defaultTaskFunc s' = defaultTaskFunc s" using de1 de2 by simp
  have c9: "\<forall>x. x < allocated s \<longrightarrow> key s' x = key s x"
    using ks1 ks2 al1 by auto
  show ?case
    by (intro exI [of _ s'] exI [of _ as'] exI [of _ "d1 @ d2"] conjI)
       (fact c1 ord' c3 c4 c5 c5' c6 c7 c8 c9)+
qed

lemma orderly_waiting:
  assumes "orderly s as"
  shows "sorted (map (\<lambda>x. taskPriority (heap s x)) (tl as))"
proof -
  from assms have "sorted_wrt (before s) (tl as)"
    by (cases as) (simp_all add: orderly_def)
  then have "sorted_wrt (\<lambda>x y. taskPriority (heap s x) \<le> taskPriority (heap s y)) (tl as)"
    by (rule sorted_wrt_mono_rel [rotated]) (auto simp: before_def)
  then show ?thesis by (simp add: sorted_map)
qed

section \<open>Where a submission lands\<close>

lemma dropWhile_first: "dropWhile P ws = y # ys \<Longrightarrow> \<not> P y"
  by (metis hd_dropWhile list.sel(1) list.distinct(1))

text \<open>
  C2. \<open>enqueueTask\<close> on a chain \<open>a # ws\<close> whose objects exist, for a submission that is
  not dropped: the call returns; the new object (at the address \<open>allocated s\<close>) is linked
  after the waiting tasks the loop passes, which are the longest run of waiting tasks with
  a priority at most its own, and before the first waiting task with a greater priority.
  The head stays the head whatever the priorities. \<open>tail\<close> becomes the new object exactly
  when nothing follows it. \<open>length\<close> grows by one and the other objects keep identifier
  and priority. When the waiting tasks ascend in priority, every task behind the new one
  has a greater priority, so the new one stands behind all waiting tasks of a priority at
  most its own.
\<close>

theorem C2_ordered_insertion:
  assumes chain: "is_chain (heap s) (head s) (a # ws)"
    and alloc: "\<forall>x\<in>set (a # ws). x < allocated s"
    and fresh: "if id_of params now \<in> tracked s then allowDuplicate else True"
  shows "\<exists>s'. enqueueTask params allowDuplicate now s = Inr s'
      \<and> is_chain (heap s') (head s')
           (a # takeWhile (\<lambda>x. taskPriority (heap s x) \<le> priority_of params) ws
              @ allocated s # dropWhile (\<lambda>x. taskPriority (heap s x) \<le> priority_of params) ws)
      \<and> head s' = head s
      \<and> tail s' = (if dropWhile (\<lambda>x. taskPriority (heap s x) \<le> priority_of params) ws = []
                   then Some (allocated s) else tail s)
      \<and> length_tm s' = length_tm s + 1
      \<and> key s' (allocated s) = ticket (params, now)
      \<and> (\<forall>x\<in>set (a # ws). key s' x = key s x)
      \<and> (\<forall>x\<in>set (takeWhile (\<lambda>x. taskPriority (heap s x) \<le> priority_of params) ws).
            taskPriority (heap s x) \<le> priority_of params)
      \<and> (case dropWhile (\<lambda>x. taskPriority (heap s x) \<le> priority_of params) ws of
            [] \<Rightarrow> True
          | y # ys \<Rightarrow> priority_of params < taskPriority (heap s y))
      \<and> (if sorted (map (\<lambda>x. taskPriority (heap s x)) ws)
          then \<forall>x\<in>set (dropWhile (\<lambda>x. taskPriority (heap s x) \<le> priority_of params) ws).
                 priority_of params < taskPriority (heap s x)
          else True)"
proof -
  let ?P = "\<lambda>x. taskPriority (heap s x) \<le> priority_of params"
  from linked_insert [OF chain alloc fresh] obtain s' where
    res: "enqueueTask params allowDuplicate now s = Inr s'"
    and ch: "is_chain (heap s') (head s') (a # takeWhile ?P ws @ allocated s # dropWhile ?P ws)"
    and hd: "head s' = Some a"
    and tl: "tail s' = (if dropWhile ?P ws = [] then Some (allocated s) else tail s)"
    and len: "length_tm s' = length_tm s + 1"
    and objs: "\<forall>x. heap s' x\<lparr>next := None\<rparr> =
               (if x = allocated s then new_TMTask params now (defaultTaskFunc s) else heap s x)\<lparr>next := None\<rparr>"
    by blast
  from chain hd have hd': "head s' = head s" by simp
  have at_n: "heap s' (allocated s)\<lparr>next := None\<rparr>
      = (new_TMTask params now (defaultTaskFunc s))\<lparr>next := None\<rparr>"
    using objs by simp
  have key_n: "key s' (allocated s) = ticket (params, now)"
    using same_but_next [OF at_n] by (simp add: key_def ticket_def)
  have key_old: "\<forall>x\<in>set (a # ws). key s' x = key s x"
  proof
    fix x assume x: "x \<in> set (a # ws)"
    with alloc have "x \<noteq> allocated s" by auto
    with objs have "heap s' x\<lparr>next := None\<rparr> = (heap s x)\<lparr>next := None\<rparr>" by simp
    from same_but_next [OF this] show "key s' x = key s x" by (simp add: key_def)
  qed
  have before: "\<forall>x\<in>set (takeWhile ?P ws). taskPriority (heap s x) \<le> priority_of params"
    by (auto dest: set_takeWhileD)
  have after: "(case dropWhile ?P ws of [] \<Rightarrow> True
          | y # ys \<Rightarrow> priority_of params < taskPriority (heap s y))"
  proof (cases "dropWhile ?P ws")
    case Nil
    show ?thesis unfolding Nil by simp
  next
    case (Cons y ys)
    then have "\<not> ?P y" by (rule dropWhile_first)
    then show ?thesis unfolding Cons by simp
  qed
  have all_after: "(if sorted (map (\<lambda>x. taskPriority (heap s x)) ws)
          then \<forall>x\<in>set (dropWhile ?P ws). priority_of params < taskPriority (heap s x)
          else True)"
    by (auto dest: sorted_dropWhile_above)
  show ?thesis
    by (intro exI [of _ s'] conjI) (fact res ch hd' tl len key_n key_old before after all_after)+
qed

theorem C2_ordered_insertion_witness:
  "\<exists>s s'. run [EnqueueTask (sampleTask 1 None False) False 7,
               EnqueueTask (sampleTask 2 (Some 3) False) False 7,
               EnqueueTask (sampleTask 3 (Some 6) False) False 7] (new_TaskManager None) = Inr s
     \<and> is_chain (heap s) (head s) [0, 1, 2]
     \<and> map (key s) [0, 1, 2] = [(1, 5), (2, 3), (3, 6)]
     \<and> enqueueTask (sampleTask 4 (Some 3) False) False 7 s = Inr s'
     \<and> is_chain (heap s') (head s') [0, 1, 3, 2]
     \<and> map (key s') [0, 1, 3, 2] = [(1, 5), (2, 3), (4, 3), (3, 6)]
     \<and> head s' = Some 0 \<and> tail s' = Some 2 \<and> length_tm s' = 4"
proof -
  let ?new = "sampleTask 4 (Some 3) False"
  have "\<exists>s. run [EnqueueTask (sampleTask 1 None False) False 7,
               EnqueueTask (sampleTask 2 (Some 3) False) False 7,
               EnqueueTask (sampleTask 3 (Some 6) False) False 7] (new_TaskManager None) = Inr s
     \<and> is_chain (heap s) (head s) [0, 1, 2] \<and> allocated s = 3 \<and> tracked s = {1, 2, 3}
     \<and> map (key s) [0, 1, 2] = [(1, 5), (2, 3), (3, 6)]
     \<and> head s = Some 0 \<and> tail s = Some 2 \<and> length_tm s = 3"
    by (simp add: script_simps key_def insert_commute)
  then obtain s where
    r: "run [EnqueueTask (sampleTask 1 None False) False 7,
               EnqueueTask (sampleTask 2 (Some 3) False) False 7,
               EnqueueTask (sampleTask 3 (Some 6) False) False 7] (new_TaskManager None) = Inr s"
    and ch: "is_chain (heap s) (head s) [0, 1, 2]" and al: "allocated s = 3"
    and tr: "tracked s = {1, 2, 3}" and ks: "map (key s) [0, 1, 2] = [(1, 5), (2, 3), (3, 6)]"
    and hd: "head s = Some 0" and tl: "tail s = Some 2" and len: "length_tm s = 3"
    by (elim exE conjE) (rule that; assumption)
  let ?P = "\<lambda>x. taskPriority (heap s x) \<le> priority_of ?new"
  from al have alloc: "\<forall>x\<in>set [0, 1, 2]. x < allocated s" by simp
  from tr have fresh: "if id_of ?new 7 \<in> tracked s then False else True"
    by (simp add: id_of_def sampleTask_def)
  from ks have pr: "taskPriority (heap s (Suc 0)) = 3" "taskPriority (heap s 2) = 6"
    by (simp_all add: key_def)
  have p4: "priority_of ?new = 3" and t4: "ticket (?new, 7) = (4, 3)"
    by (simp_all add: priority_of_def ticket_def id_of_def sampleTask_def)
  have tw: "takeWhile ?P [1, 2] = [1]" and dw: "dropWhile ?P [1, 2] = [2]"
    by (simp_all add: pr p4)
  from C2_ordered_insertion [OF ch alloc fresh] obtain s' where
    e: "enqueueTask ?new False 7 s = Inr s'"
    and c: "is_chain (heap s') (head s') (0 # takeWhile ?P [1, 2] @ allocated s # dropWhile ?P [1, 2])"
    and h: "head s' = head s"
    and t: "tail s' = (if dropWhile ?P [1, 2] = [] then Some (allocated s) else tail s)"
    and l: "length_tm s' = length_tm s + 1"
    and kn: "key s' (allocated s) = ticket (?new, 7)"
    and ko: "\<forall>x\<in>set [0, 1, 2]. key s' x = key s x"
    by (elim exE conjE) (rule that; assumption)
  from c have c': "is_chain (heap s') (head s') [0, 1, 3, 2]"
    unfolding tw dw al by simp
  from t have t': "tail s' = Some 2" unfolding dw tl by simp
  from ko ks kn have k': "map (key s') [0, 1, 3, 2] = [(1, 5), (2, 3), (4, 3), (3, 6)]"
    unfolding al t4 by simp
  from h hd have h': "head s' = Some 0" by simp
  from l len have l': "length_tm s' = 4" by simp
  show ?thesis
    by (intro exI [of _ s] exI [of _ s'] conjI) (fact r ch ks e c' k' h' t' l')+
qed

section \<open>The order of completion\<close>

text \<open>
  The spec's example: A with priority 5, then B with priority 1 and C with
  priority 5 while A is pending. They complete as A, B, C: the priorities 5, 1, 5 of the
  completions do not ascend, since the head is never displaced.
\<close>

theorem C1_counterexample:
  "map_sum id (\<lambda>s. map (key s) (completed s))
     (run [EnqueueTask (sampleTask 1 (Some 5) False) False 7,
           EnqueueTask (sampleTask 2 (Some 1) False) False 7,
           EnqueueTask (sampleTask 3 (Some 5) False) False 7,
           Settle 0 Fulfilled 7, Settle 0 Fulfilled 7, Settle 0 Fulfilled 7]
        (new_TaskManager None))
   = Inr [(1, 5), (2, 1), (3, 5)]
   \<and> \<not> sorted [5, 1, 5 :: int]"
  by (simp add: script_simps key_def)

text \<open>
  C1, as the code has it. A manager in the steady regime, idle or busy, whose waiting
  tasks are in order, as they are in a new manager; then any calls, in any order, each a
  submission or the fulfilment of the promise of the executing task. Every call returns and the waiting tasks are in order
  again: ascending in priority, those of equal priority in the order of their submission.
  The tasks that were queued at the start complete in the order of the queue (the head,
  then the waiting tasks by priority), those still queued at the end are queued in that
  order, and the head of the start is the first to complete whatever is submitted
  meanwhile. Through all completions and the queue, tasks of equal priority stand in the
  order of their submission. No call changes the identifier or the priority of a queued
  task.
\<close>

theorem C1_completion_order:
  assumes start: "orderly s as"
    and calls: "\<forall>c\<in>set cs. admissible (defaultTaskFunc s) c"
  shows "orderly (new_TaskManager d) []
     \<and> (\<exists>s' as' done. run cs s = Inr s' \<and> orderly s' as'
          \<and> completed s' = completed s @ done
          \<and> filter (\<lambda>x. x \<in> set as) (done @ as') = as
          \<and> (case as of [] \<Rightarrow> True | a # ws \<Rightarrow> take 1 (done @ as') = [a])
          \<and> sorted (map (\<lambda>x. taskPriority (heap s' x))
                       (filter (\<lambda>x. x \<in> set (tl as)) done))
          \<and> sorted (map (\<lambda>x. taskPriority (heap s' x)) (tl as'))
          \<and> sorted_wrt (fifo s') (done @ as')
          \<and> (\<forall>x\<in>set as. key s' x = key s x))"
proof -
  from orderly_run [OF start calls] obtain s' as' dn where
    r: "run cs s = Inr s'" and o: "orderly s' as'"
    and c: "completed s' = completed s @ dn"
    and f: "filter (\<lambda>x. x \<in> set as) (dn @ as') = as"
    and h: "case as of [] \<Rightarrow> True | a # ws \<Rightarrow> take 1 (dn @ as') = [a]"
    and ff: "sorted_wrt (fifo s') (dn @ as')"
    and ks: "\<forall>x. x < allocated s \<longrightarrow> key s' x = key s x"
    by (elim exE conjE) (rule that; assumption)
  have k: "\<forall>x\<in>set as. key s' x = key s x"
    using ks orderly_allocated [OF start] by blast
  let ?f = "\<lambda>x. taskPriority (heap s' x)"
  have w': "sorted (map ?f (tl as'))"
    using o by (rule orderly_waiting)
  have w: "sorted (map ?f (filter (\<lambda>x. x \<in> set (tl as)) dn))"
  proof -
    from start have "sorted (map (\<lambda>x. taskPriority (heap s x)) (tl as))"
      by (rule orderly_waiting)
    moreover have "map (\<lambda>x. taskPriority (heap s x)) (tl as) = map ?f (tl as)"
    proof (rule map_cong [OF refl])
      fix x assume "x \<in> set (tl as)"
      then have "x \<in> set as" by (cases as) simp_all
      with k have "key s' x = key s x" by simp
      then show "taskPriority (heap s x) = ?f x" by (simp add: key_def)
    qed
    ultimately have sw: "sorted (map ?f (tl as))" by simp
    from start have "distinct as"
      by (auto simp: orderly_def steady_def dest: is_chain_distinct)
    then have "filter (\<lambda>x. x \<in> set (tl as)) as = tl as"
      by (cases as) (simp_all add: filter_id_conv)
    moreover have "filter (\<lambda>x. x \<in> set (tl as)) (dn @ as')
          = filter (\<lambda>x. x \<in> set (tl as)) (filter (\<lambda>x. x \<in> set as) (dn @ as'))"
    proof (rule filter_twice)
      fix x assume "x \<in> set (tl as)"
      then show "x \<in> set as" by (cases as) simp_all
    qed
    ultimately have "filter (\<lambda>x. x \<in> set (tl as)) dn @ filter (\<lambda>x. x \<in> set (tl as)) as' = tl as"
      unfolding f by simp
    with sw have "sorted (map ?f (filter (\<lambda>x. x \<in> set (tl as)) dn)
                          @ map ?f (filter (\<lambda>x. x \<in> set (tl as)) as'))"
      by (metis map_append)
    then show ?thesis by (simp add: sorted_append)
  qed
  show ?thesis
    by (intro exI [of _ s'] exI [of _ as'] exI [of _ dn] conjI)
       (fact orderly_new r o c f h w w' ff k)+
qed

theorem C1_completion_order_witness:
  "\<exists>s s' as' done.
     run [EnqueueTask (sampleTask 1 (Some 5) False) False 7,
          EnqueueTask (sampleTask 2 (Some 3) False) False 7] (new_TaskManager None) = Inr s
     \<and> orderly s [0, 1]
     \<and> run [Settle 0 Fulfilled 7,
             EnqueueTask (sampleTask 3 (Some 1) False) False 7,
             EnqueueTask (sampleTask 4 (Some 3) False) False 7,
             Settle 0 Fulfilled 7, Settle 0 Fulfilled 7, Settle 0 Fulfilled 7] s = Inr s'
     \<and> orderly s' as'
     \<and> completed s' = completed s @ done
     \<and> filter (\<lambda>x. x \<in> set [0, 1]) (done @ as') = [0, 1]
     \<and> map (key s') (completed s') = [(1, 5), (2, 3), (3, 1), (4, 3)]"
proof -
  let ?cs = "[Settle 0 Fulfilled 7,
             EnqueueTask (sampleTask 3 (Some 1) False) False 7,
             EnqueueTask (sampleTask 4 (Some 3) False) False 7,
             Settle 0 Fulfilled 7, Settle 0 Fulfilled 7, Settle 0 Fulfilled 7]"
  have "\<exists>s. run [EnqueueTask (sampleTask 1 (Some 5) False) False 7,
          EnqueueTask (sampleTask 2 (Some 3) False) False 7] (new_TaskManager None) = Inr s
     \<and> orderly s [0, 1] \<and> defaultTaskFunc s = None
     \<and> map_sum id (\<lambda>s'. map (key s') (completed s')) (run ?cs s)
         = Inr [(1, 5), (2, 3), (3, 1), (4, 3)]"
    by (simp add: script_simps orderly_def steady_def key_def fifo_def)
  then obtain s where
    r: "run [EnqueueTask (sampleTask 1 (Some 5) False) False 7,
          EnqueueTask (sampleTask 2 (Some 3) False) False 7] (new_TaskManager None) = Inr s"
    and o: "orderly s [0, 1]" and d: "defaultTaskFunc s = None"
    and m: "map_sum id (\<lambda>s'. map (key s') (completed s')) (run ?cs s)
         = Inr [(1, 5), (2, 3), (3, 1), (4, 3)]"
    by (elim exE conjE) (rule that; assumption)
  have calls: "\<forall>c\<in>set ?cs. admissible (defaultTaskFunc s) c"
    unfolding d by (simp add: sampleTask_def func_of_def)
  from C1_completion_order [OF o calls, of None] obtain s' as' dn where
    r': "run ?cs s = Inr s'" and o': "orderly s' as'"
    and c': "completed s' = completed s @ dn"
    and f': "filter (\<lambda>x. x \<in> set [0, 1]) (dn @ as') = [0, 1]"
    by (elim exE conjE) (rule that; assumption)
  from m have k': "map (key s') (completed s') = [(1, 5), (2, 3), (3, 1), (4, 3)]"
    unfolding r' by simp
  show ?thesis
    by (intro exI [of _ s] exI [of _ s'] exI [of _ as'] exI [of _ dn] conjI)
       (fact r o r' o' c' f' k')+
qed

section \<open>The ready listener\<close>

text \<open>
  One task is submitted and its promise is fulfilled. The events \<open>Dispatch\<close> and
  \<open>Complete\<close> carry what is read on the manager at that moment (head, tail, length,
  tracked identifiers). \<open>complete\<close> is emitted while \<open>length\<close> is still 1; it is 0 only
  when the listener returns.
\<close>

theorem C3_counterexample:
  "map_sum id (\<lambda>s. (trace s, length_tm s))
     (run [EnqueueTask (sampleTask 1 None False) False 7, Settle 0 Fulfilled 7]
        (new_TaskManager None))
   = Inr ([Diag LOG, Diag LOG, Diag DEBUG, Dispatch 0 (Some 0, Some 0, 0, {1}),
           Ready 0, Diag INFO, Diag INFO, Complete (None, None, 1, {})], 0)"
  by (simp add: script_simps)

text \<open>
  C3, as the code has it. Whenever \<open>ready\<close> is emitted with a task, the listener takes
  the task's identifier out of the tracked ones and makes the task's \<open>next\<close> the head.
  When there is a new head it is executed (a \<open>TypeError\<close> when it has no work function);
  otherwise \<open>tail\<close> is cleared and \<open>complete\<close> is emitted. \<open>length\<close> is decremented last:
  the work function of the new head and the listeners of \<open>complete\<close> still read the old
  value. When the task is the head of the chain, the chain loses exactly that task, and
  \<open>complete\<close> is emitted exactly when the chain becomes empty.
\<close>

theorem C3_ready_listener:
  "emit_ready a s =
     (case next (heap s a) of
        None \<Rightarrow>
          Inr (s\<lparr>trace := trace s @ [Ready a, Diag INFO, Diag INFO,
                    Complete (None, None, length_tm s, tracked s - {id_task (heap s a)})],
                 tracked := tracked s - {id_task (heap s a)},
                 head := None, tail := None,
                 length_tm := length_tm s - 1\<rparr>)
      | Some b \<Rightarrow>
          (case taskFunc (heap s b) of
             None \<Rightarrow> Inl TypeError
           | Some f \<Rightarrow>
               Inr (s\<lparr>trace := trace s @ [Ready a, Diag INFO, Diag INFO, Diag DEBUG,
                        Dispatch b (Some b, tail s, length_tm s,
                                    tracked s - {id_task (heap s a)})],
                      tracked := tracked s - {id_task (heap s a)},
                      head := Some b,
                      pending := pending s @ [(b, retry (heap s b))],
                      length_tm := length_tm s - 1\<rparr>)))
   \<and> (if is_chain (heap s) (head s) (a # as)
       then (next (heap s a) = None) = (as = [])
            \<and> (case emit_ready a s of
                  Inl e \<Rightarrow> True
                | Inr s' \<Rightarrow> is_chain (heap s') (head s') as)
       else True)"
proof -
  have first: "emit_ready a s =
     (case next (heap s a) of
        None \<Rightarrow>
          Inr (s\<lparr>trace := trace s @ [Ready a, Diag INFO, Diag INFO,
                    Complete (None, None, length_tm s, tracked s - {id_task (heap s a)})],
                 tracked := tracked s - {id_task (heap s a)},
                 head := None, tail := None,
                 length_tm := length_tm s - 1\<rparr>)
      | Some b \<Rightarrow>
          (case taskFunc (heap s b) of
             None \<Rightarrow> Inl TypeError
           | Some f \<Rightarrow>
               Inr (s\<lparr>trace := trace s @ [Ready a, Diag INFO, Diag INFO, Diag DEBUG,
                        Dispatch b (Some b, tail s, length_tm s,
                                    tracked s - {id_task (heap s a)})],
                      tracked := tracked s - {id_task (heap s a)},
                      head := Some b,
                      pending := pending s @ [(b, retry (heap s b))],
                      length_tm := length_tm s - 1\<rparr>)))"
    by (simp add: emit_ready_last emit_ready_next emit_ready_throws split: option.split)
  have second: "(next (heap s a) = None) = (as = [])
            \<and> (case emit_ready a s of
                  Inl e \<Rightarrow> True
                | Inr s' \<Rightarrow> is_chain (heap s') (head s') as)"
    if chain: "is_chain (heap s) (head s) (a # as)"
  proof -
    from chain have "is_chain (heap s) (Some a) (a # as)" by simp
    then have nx: "next (heap s a) = (case as of [] \<Rightarrow> None | b # bs \<Rightarrow> Some b)"
      by (rule is_chain_next)
    then have "(next (heap s a) = None) = (as = [])"
      by (simp only: first_None)
    moreover from chain have rest: "is_chain (heap s) (next (heap s a)) as" by simp
    have "case emit_ready a s of Inl e \<Rightarrow> True | Inr s' \<Rightarrow> is_chain (heap s') (head s') as"
      unfolding first using rest by (auto split: option.split)
    ultimately show ?thesis by simp
  qed
  from first second show ?thesis by simp
qed

theorem C3_ready_listener_witness:
  "\<exists>s. run [EnqueueTask (sampleTask 1 None False) False 7] (new_TaskManager None) = Inr s
     \<and> is_chain (heap s) (head s) [0] \<and> length_tm s = 1
     \<and> emit_ready 0 s
        = Inr (s\<lparr>trace := trace s @ [Ready 0, Diag INFO, Diag INFO,
                                         Complete (None, None, 1, tracked s - {id_task (heap s 0)})],
                 tracked := tracked s - {id_task (heap s 0)},
                 head := None, tail := None, length_tm := 0\<rparr>)"
proof -
  have "\<exists>s. run [EnqueueTask (sampleTask 1 None False) False 7] (new_TaskManager None) = Inr s
     \<and> is_chain (heap s) (head s) [0] \<and> length_tm s = 1"
    by (simp add: script_simps)
  then obtain s where
    r: "run [EnqueueTask (sampleTask 1 None False) False 7] (new_TaskManager None) = Inr s"
    and ch: "is_chain (heap s) (head s) [0]" and len: "length_tm s = 1"
    by (elim exE conjE) (rule that; assumption)
  from ch have nx: "next (heap s 0) = None" by simp
  from C3_ready_listener [of 0 s "[]"] nx len
  have "emit_ready 0 s
        = Inr (s\<lparr>trace := trace s @ [Ready 0, Diag INFO, Diag INFO,
                                         Complete (None, None, 1, tracked s - {id_task (heap s 0)})],
                 tracked := tracked s - {id_task (heap s 0)},
                 head := None, tail := None, length_tm := 0\<rparr>)"
    by simp
  with r ch len show ?thesis by (intro exI [of _ s]) simp
qed

section \<open>The retry sequence\<close>

text \<open>
  The spec's example: a task of priority 3 with \<open>retry\<close> set and a task of priority 4
  behind it. \<open>length\<close> is 2 before the first task's promise rejects and 2 after the retry
  sequence has run.
\<close>

theorem C4_counterexample:
  "map_sum id length_tm
     (run [EnqueueTask (sampleTask 1 (Some 3) True) False 7,
           EnqueueTask (sampleTask 2 (Some 4) False) False 7] (new_TaskManager None))
   = Inr 2
   \<and> map_sum id length_tm
     (run [EnqueueTask (sampleTask 1 (Some 3) True) False 7,
           EnqueueTask (sampleTask 2 (Some 4) False) False 7,
           Settle 0 Rejected 7] (new_TaskManager None))
   = Inr 2"
  by (simp add: script_simps)

text \<open>
  The retry handler on the head of a chain: what \<open>enqueueTask\<close> and \<open>skip\<close> leave
  behind, and the same for any number of retries of a task that is alone in the queue.
\<close>

lemma retry_sequence:
  assumes chain: "is_chain (heap s) (head s) (a # ws)"
    and objects: "\<forall>x\<in>set (a # ws). x < allocated s \<and> taskFunc (heap s x) \<noteq> None"
    and len: "0 \<le> length_tm s"
    and promise: "k < length (pending s)" "pending s ! k = (a, True)"
  shows "\<exists>s'. settle k Rejected now s = Inr s'
     \<and> length_tm s' = length_tm s
     \<and> is_chain (heap s') (head s')
          (takeWhile (\<lambda>x. taskPriority (heap s x) \<le> demote (taskPriority (heap s a))) ws
             @ allocated s
             # dropWhile (\<lambda>x. taskPriority (heap s x) \<le> demote (taskPriority (heap s a))) ws)
     \<and> key s' (allocated s)
         = (if id_task (heap s a) = 0 then now else id_task (heap s a),
            demote (taskPriority (heap s a)))
     \<and> (\<forall>x\<in>set ws. key s' x = key s x)
     \<and> completed s' = completed s @ [a]
     \<and> allocated s' = Suc (allocated s)
     \<and> (\<forall>x\<in>set ws. taskFunc (heap s' x) \<noteq> None)
     \<and> taskFunc (heap s' (allocated s)) \<noteq> None
     \<and> retry (heap s' (allocated s)) = retry (heap s a)
     \<and> taskPriority (heap s' a) = demote (taskPriority (heap s a))
     \<and> (case head s' of
           None \<Rightarrow> False
         | Some b \<Rightarrow> pending s' = take k (pending s) @ drop (Suc k) (pending s)
                                   @ [(b, retry (heap s' b))])"
proof -
  from objects obtain g where g: "taskFunc (heap s a) = Some g" by auto
  define t where "t = (heap s a)\<lparr>taskPriority := demote (taskPriority (heap s a)),
                                  id_task := (if id_task (heap s a) = 0 then now else id_task (heap s a))\<rparr>"
  define s2 where "s2 = s\<lparr>pending := take k (pending s) @ drop (Suc k) (pending s),
                           trace := trace s @ [Diag ERROR], heap := (heap s)(a := t)\<rparr>"
  define n where "n = allocated s"
  define pre where "pre = takeWhile (\<lambda>x. taskPriority (heap s x) \<le> demote (taskPriority (heap s a))) ws"
  define post where "post = dropWhile (\<lambda>x. taskPriority (heap s x) \<le> demote (taskPriority (heap s a))) ws"
  have written: "(heap s a)\<lparr>taskPriority := demote (taskPriority (heap s a)),
        id_task := id_of (params_of ((heap s a)\<lparr>taskPriority := demote (taskPriority (heap s a))\<rparr>)) now,
        taskFunc := func_of (params_of ((heap s a)\<lparr>taskPriority := demote (taskPriority (heap s a))\<rparr>)) d\<rparr>
      = t" for d
    using g by (cases "heap s a") (simp add: t_def func_of_def params_of_def id_of_def)
  have step: "settle k Rejected now s =
      (case enqueueTask (params_of t) True now s2 of Inl e \<Rightarrow> Inl e | Inr s3 \<Rightarrow> skip s3)"
    using promise
    by (simp add: settle_def retry_catch_def Let_def s2_def diag_def written del: params_of_fields)
  from chain have "distinct (a # ws)" by (rule is_chain_distinct)
  then have a_out: "a \<notin> set ws" by simp
  have same_ws: "heap s2 x = heap s x" if "x \<in> set ws" for x
    using that a_out by (auto simp: s2_def)
  have chain2: "is_chain (heap s2) (head s2) (a # ws)"
  proof -
    have "is_chain (heap s2) (head s) (a # ws)"
      by (rule is_chain_frame [OF chain]) (simp add: s2_def t_def)
    then show ?thesis by (simp add: s2_def)
  qed
  from objects have alloc2: "\<forall>x\<in>set (a # ws). x < allocated s2"
    by (simp add: s2_def)
  have fresh2: "if id_of (params_of t) now \<in> tracked s2 then True else True" by simp
  have pr_t: "priority_of (params_of t) = demote (taskPriority (heap s a))"
    by (simp add: t_def)
  have tw: "takeWhile (\<lambda>x. taskPriority (heap s2 x) \<le> priority_of (params_of t)) ws = pre"
    unfolding pre_def pr_t by (rule takeWhile_cong) (simp_all add: same_ws)
  have dw: "dropWhile (\<lambda>x. taskPriority (heap s2 x) \<le> priority_of (params_of t)) ws = post"
    unfolding post_def pr_t by (rule dropWhile_cong) (simp_all add: same_ws)
  have n2: "allocated s2 = n" by (simp add: s2_def n_def)
  from linked_insert [OF chain2 alloc2 fresh2] obtain s3 where
    e: "enqueueTask (params_of t) True now s2 = Inr s3"
    and c3: "is_chain (heap s3) (head s3) (a # pre @ n # post)"
    and h3: "head s3 = Some a"
    and l3: "length_tm s3 = length_tm s2 + 1"
    and co3: "completed s3 = completed s2"
    and al3: "allocated s3 = Suc n"
    and pe3: "pending s3 = pending s2"
    and objs: "\<forall>x. heap s3 x\<lparr>next := None\<rparr> =
               (if x = n then new_TMTask (params_of t) now (defaultTaskFunc s2) else heap s2 x)\<lparr>next := None\<rparr>"
    unfolding tw dw n2 by (elim exE conjE) (rule that; assumption)
  from objects have old: "x \<noteq> n" if "x \<in> set (a # ws)" for x
    using that unfolding n_def by auto
  have at_n: "heap s3 n\<lparr>next := None\<rparr> = (new_TMTask (params_of t) now (defaultTaskFunc s2))\<lparr>next := None\<rparr>"
    using objs by simp
  have at_ws: "heap s3 x\<lparr>next := None\<rparr> = (heap s x)\<lparr>next := None\<rparr>" if "x \<in> set ws" for x
    using objs old [of x] that same_ws [OF that] by simp
  have key_n: "key s3 n = (if id_task (heap s a) = 0 then now else id_task (heap s a),
            demote (taskPriority (heap s a)))"
    using same_but_next [OF at_n] by (simp add: key_def t_def)
  have fn_n: "taskFunc (heap s3 n) \<noteq> None"
    using same_but_next [OF at_n] g by (simp add: t_def)
  have key_ws: "key s3 x = key s x" if "x \<in> set ws" for x
    using same_but_next [OF at_ws [OF that]] by (simp add: key_def)
  have fn_ws: "taskFunc (heap s3 x) \<noteq> None" if "x \<in> set ws" for x
    using same_but_next [OF at_ws [OF that]] objects that by auto
  have ws: "ws = pre @ post" unfolding pre_def post_def by simp
  obtain b cs where bcs: "pre @ n # post = b # cs"
    by (cases "pre @ n # post") simp_all
  then have "b \<in> set (pre @ n # post)" by simp
  then have "b = n \<or> b \<in> set ws" using ws by auto
  with fn_n fn_ws obtain f where f: "taskFunc (heap s3 b) = Some f" by auto
  from c3 h3 have "is_chain (heap s3) (Some a) (a # b # cs)" unfolding bcs by simp
  then have nx: "next (heap s3 a) = Some b" and rest: "is_chain (heap s3) (Some b) (b # cs)"
    by simp_all
  from l3 len have pos: "0 < length_tm s3" by (simp add: s2_def)
  define s' where "s' = s3\<lparr>trace := trace s3 @ [Diag WARN, Ready a, Diag INFO, Diag INFO, Diag DEBUG,
                                                Dispatch b (Some b, tail s3, length_tm s3,
                                                  tracked s3 - {id_task (heap s3 a)})],
                           tracked := tracked s3 - {id_task (heap s3 a)},
                           head := Some b,
                           pending := pending s3 @ [(b, retry (heap s3 b))],
                           length_tm := length_tm s3 - 1\<rparr>"
  have nx': "next (heap (diag WARN s3) a) = Some b" using nx by simp
  have f': "taskFunc (heap (diag WARN s3) b) = Some f" using f by simp
  have "skip s3 = emit_ready a (diag WARN s3)"
    using pos h3 by (simp add: skip_def)
  also have "\<dots> = Inr s'"
    unfolding emit_ready_next [OF nx' f'] s'_def by (simp add: diag_def)
  finally have sk: "skip s3 = Inr s'" .
  have r: "settle k Rejected now s = Inr s'"
    unfolding step e using sk by simp
  have l': "length_tm s' = length_tm s"
    using l3 by (simp add: s'_def s2_def)
  have c': "is_chain (heap s') (head s') (pre @ n # post)"
    unfolding bcs using rest by (simp add: s'_def)
  have kn': "key s' n = (if id_task (heap s a) = 0 then now else id_task (heap s a),
            demote (taskPriority (heap s a)))"
    using key_n by (simp add: key_def s'_def)
  have kw': "\<forall>x\<in>set ws. key s' x = key s x"
    using key_ws by (simp add: key_def s'_def)
  have co': "completed s' = completed s @ [a]"
    using co3 by (simp add: s'_def s2_def completed_fold)
  have al': "allocated s' = Suc n"
    using al3 by (simp add: s'_def)
  have fw': "\<forall>x\<in>set ws. taskFunc (heap s' x) \<noteq> None"
    using fn_ws by (simp add: s'_def)
  have fn': "taskFunc (heap s' n) \<noteq> None"
    using fn_n by (simp add: s'_def)
  have re': "retry (heap s' n) = retry (heap s a)"
    using same_but_next [OF at_n] by (simp add: s'_def t_def params_of_def)
  have at_a: "heap s3 a\<lparr>next := None\<rparr> = t\<lparr>next := None\<rparr>"
    using objs old [of a] by (simp add: s2_def)
  have pa': "taskPriority (heap s' a) = demote (taskPriority (heap s a))"
    using same_but_next [OF at_a] by (simp add: s'_def t_def)
  have pe': "(case head s' of
           None \<Rightarrow> False
         | Some b \<Rightarrow> pending s' = take k (pending s) @ drop (Suc k) (pending s)
                                   @ [(b, retry (heap s' b))])"
    using pe3 by (simp add: s'_def s2_def)
  show ?thesis
    unfolding pre_def [symmetric] post_def [symmetric] n_def [symmetric]
    by (intro exI [of _ s'] conjI) (fact r l' c' kn' kw' co' al' fw' fn' re' pa' pe')+
qed

lemma retry_alone:
  assumes "is_chain (heap s) (head s) [a]" and "a < allocated s" and "taskFunc (heap s a) \<noteq> None"
    and "0 \<le> length_tm s" and "pending s = [(a, True)]" and "retry (heap s a)"
  shows "\<exists>s' b. run (replicate n (Settle 0 Rejected now)) s = Inr s'
     \<and> is_chain (heap s') (head s') [b] \<and> b < allocated s' \<and> taskFunc (heap s' b) \<noteq> None
     \<and> length_tm s' = length_tm s \<and> pending s' = [(b, True)] \<and> retry (heap s' b)
     \<and> taskPriority (heap s' b) = (demote ^^ n) (taskPriority (heap s a))
     \<and> length (completed s') = length (completed s) + n"
  using assms
proof (induction n arbitrary: s a)
  case 0
  then show ?case by (intro exI [of _ s] exI [of _ a]) simp
next
  case (Suc n)
  note chain = Suc.prems(1) and len = Suc.prems(4) and pe = Suc.prems(5) and re = Suc.prems(6)
  from Suc.prems(2,3) have objects: "\<forall>x\<in>set [a]. x < allocated s \<and> taskFunc (heap s x) \<noteq> None"
    by simp
  from pe have promise: "0 < length (pending s)" "pending s ! 0 = (a, True)" by simp_all
  let ?m = "allocated s"
  from retry_sequence [OF chain objects len promise, of now] obtain s1 where
    r1: "settle 0 Rejected now s = Inr s1"
    and l1: "length_tm s1 = length_tm s"
    and c0: "is_chain (heap s1) (head s1)
          (takeWhile (\<lambda>x. taskPriority (heap s x) \<le> demote (taskPriority (heap s a))) []
             @ ?m # dropWhile (\<lambda>x. taskPriority (heap s x) \<le> demote (taskPriority (heap s a))) [])"
    and k1: "key s1 ?m = (if id_task (heap s a) = 0 then now else id_task (heap s a),
                         demote (taskPriority (heap s a)))"
    and co1: "completed s1 = completed s @ [a]"
    and al1: "allocated s1 = Suc ?m"
    and fn1: "taskFunc (heap s1 ?m) \<noteq> None"
    and re1: "retry (heap s1 ?m) = retry (heap s a)"
    and pe1: "case head s1 of None \<Rightarrow> False
              | Some b \<Rightarrow> pending s1 = take 0 (pending s) @ drop (Suc 0) (pending s)
                                        @ [(b, retry (heap s1 b))]"
    by (elim exE conjE) (rule that; assumption)
  from c0 have c1: "is_chain (heap s1) (head s1) [?m]" by simp
  from c1 have h1: "head s1 = Some ?m" by simp
  from re re1 have again: "retry (heap s1 ?m)" by simp
  from pe1 h1 pe again have p1: "pending s1 = [(?m, True)]" by simp
  from al1 have m1: "?m < allocated s1" by simp
  from l1 len have len1: "0 \<le> length_tm s1" by simp
  from k1 have pr1: "taskPriority (heap s1 ?m) = demote (taskPriority (heap s a))"
    by (simp add: key_def)
  from Suc.IH [OF c1 m1 fn1 len1 p1 again] obtain s' b where
    r: "run (replicate n (Settle 0 Rejected now)) s1 = Inr s'"
    and c: "is_chain (heap s') (head s') [b]" and b: "b < allocated s'"
    and f: "taskFunc (heap s' b) \<noteq> None"
    and l: "length_tm s' = length_tm s1" and p: "pending s' = [(b, True)]"
    and rt: "retry (heap s' b)"
    and pr: "taskPriority (heap s' b) = (demote ^^ n) (taskPriority (heap s1 ?m))"
    and co: "length (completed s') = length (completed s1) + n"
    by (elim exE conjE) (rule that; assumption)
  from r1 r have r': "run (replicate (Suc n) (Settle 0 Rejected now)) s = Inr s'" by simp
  from l l1 have l': "length_tm s' = length_tm s" by simp
  from pr pr1 have pr': "taskPriority (heap s' b) = (demote ^^ Suc n) (taskPriority (heap s a))"
    by (simp add: funpow_swap1)
  from co co1 have co': "length (completed s') = length (completed s) + Suc n" by simp
  show ?case
    by (intro exI [of _ s'] exI [of _ b] conjI) (fact r' c b f l' p rt pr' co')+
qed

text \<open>
  C4, as the code has it. The head \<open>a\<close> of a chain \<open>a # ws\<close> was executed with \<open>retry\<close>
  set and its promise rejects; the chain's objects exist and have work functions and
  \<open>length\<close> is not negative. Then the retry sequence returns and \<open>length\<close> is what it was
  before: \<open>enqueueTask\<close> has added the copy and \<open>skip\<close> has retired the failed head. The
  copy (at the address \<open>allocated s\<close>) carries the task's identifier and the raised
  priority and stands among the waiting tasks where the insertion loop puts a task of
  that priority; the chain is the waiting tasks with the copy among them, and \<open>ready\<close> was
  emitted once, with the failed head.
\<close>

theorem C4_retry_keeps_length:
  assumes chain: "is_chain (heap s) (head s) (a # ws)"
    and objects: "\<forall>x\<in>set (a # ws). x < allocated s \<and> taskFunc (heap s x) \<noteq> None"
    and len: "0 \<le> length_tm s"
    and promise: "k < length (pending s)" "pending s ! k = (a, True)"
  shows "\<exists>s'. settle k Rejected now s = Inr s'
     \<and> length_tm s' = length_tm s
     \<and> is_chain (heap s') (head s')
          (takeWhile (\<lambda>x. taskPriority (heap s x) \<le> demote (taskPriority (heap s a))) ws
             @ allocated s
             # dropWhile (\<lambda>x. taskPriority (heap s x) \<le> demote (taskPriority (heap s a))) ws)
     \<and> key s' (allocated s)
         = (if id_task (heap s a) = 0 then now else id_task (heap s a),
            demote (taskPriority (heap s a)))
     \<and> (\<forall>x\<in>set ws. key s' x = key s x)
     \<and> completed s' = completed s @ [a]"
proof -
  from retry_sequence [OF chain objects len promise, of now] obtain s' where
    r: "settle k Rejected now s = Inr s'"
    and l: "length_tm s' = length_tm s"
    and c: "is_chain (heap s') (head s')
          (takeWhile (\<lambda>x. taskPriority (heap s x) \<le> demote (taskPriority (heap s a))) ws
             @ allocated s
             # dropWhile (\<lambda>x. taskPriority (heap s x) \<le> demote (taskPriority (heap s a))) ws)"
    and kn: "key s' (allocated s)
         = (if id_task (heap s a) = 0 then now else id_task (heap s a),
            demote (taskPriority (heap s a)))"
    and kw: "\<forall>x\<in>set ws. key s' x = key s x"
    and co: "completed s' = completed s @ [a]"
    by (elim exE conjE) (rule that; assumption)
  show ?thesis
    by (intro exI [of _ s'] conjI) (fact r l c kn kw co)+
qed

theorem C4_retry_keeps_length_witness:
  "\<exists>s s'. run [EnqueueTask (sampleTask 1 (Some 3) True) False 7,
               EnqueueTask (sampleTask 2 (Some 4) False) False 7] (new_TaskManager None) = Inr s
     \<and> is_chain (heap s) (head s) [0, 1] \<and> pending s = [(0, True)] \<and> length_tm s = 2
     \<and> map (key s) [0, 1] = [(1, 3), (2, 4)]
     \<and> settle 0 Rejected 7 s = Inr s'
     \<and> length_tm s' = 2
     \<and> is_chain (heap s') (head s') [1, 2]
     \<and> map (key s') [1, 2] = [(2, 4), (1, 4)]
     \<and> completed s' = [0]"
proof -
  have "\<exists>s. run [EnqueueTask (sampleTask 1 (Some 3) True) False 7,
               EnqueueTask (sampleTask 2 (Some 4) False) False 7] (new_TaskManager None) = Inr s
     \<and> is_chain (heap s) (head s) [0, 1] \<and> pending s = [(0, True)] \<and> length_tm s = 2
     \<and> map (key s) [0, 1] = [(1, 3), (2, 4)] \<and> allocated s = 2 \<and> completed s = []
     \<and> taskFunc (heap s 0) = Some 0 \<and> taskFunc (heap s (Suc 0)) = Some 0"
    by (simp add: script_simps key_def)
  then obtain s where
    r: "run [EnqueueTask (sampleTask 1 (Some 3) True) False 7,
               EnqueueTask (sampleTask 2 (Some 4) False) False 7] (new_TaskManager None) = Inr s"
    and ch: "is_chain (heap s) (head s) [0, 1]" and pe: "pending s = [(0, True)]"
    and len: "length_tm s = 2" and ks: "map (key s) [0, 1] = [(1, 3), (2, 4)]"
    and al: "allocated s = 2" and co: "completed s = []"
    and fn: "taskFunc (heap s 0) = Some 0" "taskFunc (heap s (Suc 0)) = Some 0"
    by (elim exE conjE) (rule that; assumption)
  from al fn have objects: "\<forall>x\<in>set [0, 1]. x < allocated s \<and> taskFunc (heap s x) \<noteq> None"
    by simp
  from len have nonneg: "0 \<le> length_tm s" by simp
  from pe have promise: "0 < length (pending s)" "pending s ! 0 = (0, True)" by simp_all
  from ks have pr: "taskPriority (heap s 0) = 3" "taskPriority (heap s (Suc 0)) = 4"
    "id_task (heap s 0) = 1" "key s (Suc 0) = (2, 4)"
    by (simp_all add: key_def)
  let ?P = "\<lambda>x. taskPriority (heap s x) \<le> demote (taskPriority (heap s 0))"
  have tw: "takeWhile ?P [1] = [1]" and dw: "dropWhile ?P [1] = []"
    by (simp_all add: pr demote_exact)
  from C4_retry_keeps_length [OF ch objects nonneg promise, of 7] obtain s' where
    e: "settle 0 Rejected 7 s = Inr s'"
    and l: "length_tm s' = length_tm s"
    and c: "is_chain (heap s') (head s') (takeWhile ?P [1] @ allocated s # dropWhile ?P [1])"
    and kn: "key s' (allocated s)
         = (if id_task (heap s 0) = 0 then 7 else id_task (heap s 0),
            demote (taskPriority (heap s 0)))"
    and ko: "\<forall>x\<in>set [1]. key s' x = key s x"
    and cp: "completed s' = completed s @ [0]"
    by (elim exE conjE) (rule that; assumption)
  from c have c': "is_chain (heap s') (head s') [1, 2]"
    unfolding tw dw al by simp
  from l len have l': "length_tm s' = 2" by simp
  from kn ko have k': "map (key s') [1, 2] = [(2, 4), (1, 4)]"
    unfolding al by (simp add: pr demote_exact)
  from cp co have cp': "completed s' = [0]" by simp
  show ?thesis
    by (intro exI [of _ s] exI [of _ s'] conjI) (fact r ch pe len ks e l' c' k' cp')+
qed

section \<open>length and the chain\<close>

text \<open>
  C5 fails on the code. A task is submitted, \<open>skip()\<close> retires it while its promise is
  pending, and the promise is fulfilled afterwards: \<open>ready\<close> is emitted a second time with
  the same task and the listener decrements \<open>length\<close> again. The chain is empty, with head
  and tail \<open>null\<close>, and \<open>length\<close> is \<open>-1\<close>. In the steady regime, where \<open>ready\<close> is
  only ever emitted with the head, \<open>length\<close> does count the chain (\<open>steady_first\<close>,
  \<open>steady_later\<close>, \<open>steady_fulfil\<close>).
\<close>

theorem C5_length_after_skip_and_fulfilment:
  "map_sum id (\<lambda>s. (head s, tail s, length_tm s, completed s))
     (run [EnqueueTask (sampleTask 1 None False) False 7, Skip, Settle 0 Fulfilled 7]
        (new_TaskManager None))
   = Inr (None, None, - 1, [0, 0])"
  by (simp add: script_simps)

section \<open>A duplicate submission\<close>

text \<open>
  A second submission of a tracked identifier writes two lines, not one: the log-level
  line every call of \<open>enqueueTask\<close> writes before it tests for a duplicate, and the
  warning.
\<close>

theorem C6_counterexample:
  "map_sum id trace
     (run [EnqueueTask (sampleTask 1 None False) False 7] (new_TaskManager None))
   = Inr [Diag LOG, Diag LOG, Diag DEBUG, Dispatch 0 (Some 0, Some 0, 0, {1})]
   \<and> map_sum id trace
     (run [EnqueueTask (sampleTask 1 None False) False 7,
           EnqueueTask (sampleTask 1 None False) False 8] (new_TaskManager None))
   = Inr [Diag LOG, Diag LOG, Diag DEBUG, Dispatch 0 (Some 0, Some 0, 0, {1}),
          Diag LOG, Diag WARN]"
  by (simp add: script_simps)

text \<open>
  C6, as the code has it. A submission whose identifier is tracked, made without the
  bypass flag, is dropped without an error: the call returns and head, tail, length, the
  tracked identifiers, the objects and the pending promises are as before. The call
  writes the log-level line of every submission (after a debug-level line when the task
  asks for one) and then one warning-level line; it emits no event.
\<close>

theorem C6_duplicate_dropped:
  "id_of params now \<in> tracked s \<Longrightarrow> \<not> allowDuplicate \<Longrightarrow>
   enqueueTask params allowDuplicate now s =
     Inr (s\<lparr>trace := trace s @ (if p_debug_task params then [Diag DEBUG] else [])
                            @ [Diag LOG, Diag WARN]\<rparr>)"
  by (rule enqueue_dropped)

theorem C6_duplicate_dropped_witness:
  "\<exists>s. run [EnqueueTask (sampleTask 1 None False) False 7] (new_TaskManager None) = Inr s
     \<and> id_of (sampleTask 1 (Some 2) False) 8 \<in> tracked s
     \<and> enqueueTask (sampleTask 1 (Some 2) False) False 8 s
        = Inr (s\<lparr>trace := trace s @ [Diag LOG, Diag WARN]\<rparr>)"
proof -
  have "\<exists>s. run [EnqueueTask (sampleTask 1 None False) False 7] (new_TaskManager None) = Inr s
     \<and> id_of (sampleTask 1 (Some 2) False) 8 \<in> tracked s"
    by (simp add: script_simps)
  then obtain s where
    r: "run [EnqueueTask (sampleTask 1 None False) False 7] (new_TaskManager None) = Inr s"
    and i: "id_of (sampleTask 1 (Some 2) False) 8 \<in> tracked s"
    by (elim exE conjE) (rule that; assumption)
  have d: "\<not> False" by simp
  from C6_duplicate_dropped [OF i d]
  have "enqueueTask (sampleTask 1 (Some 2) False) False 8 s
        = Inr (s\<lparr>trace := trace s @ [Diag LOG, Diag WARN]\<rparr>)"
    by (simp add: sampleTask_def)
  with r i show ?thesis by (intro exI [of _ s]) simp
qed

section \<open>skip on an empty queue\<close>

lemma skip_steady_empty: "steady s [] \<Longrightarrow> skip s = Inr (s\<lparr>trace := trace s @ [Diag ERROR]\<rparr>)"
  by (simp add: steady_def skip_def diag_def)

text \<open>
  C9 fails on the code. \<open>skip()\<close> tests \<open>length\<close>, not the chain. A task is submitted
  and skipped while its promise is pending; two more submissions of the same identifier
  follow, the second with the bypass flag; then the promise of the first task is
  fulfilled. \<open>ready\<close> is emitted with the retired task, whose \<open>next\<close> is \<open>null\<close>: head and
  tail are \<open>null\<close>, no identifier is tracked, and \<open>length\<close> is 1. \<open>skip()\<close> now reads
  \<open>head.taskType\<close> and throws a \<open>TypeError\<close>. In the steady regime, where \<open>length\<close>
  counts the chain, \<open>skip()\<close> on an empty queue writes one error-level line and changes
  nothing else (\<open>skip_steady_empty\<close>).
\<close>

theorem C9_skip_with_stale_length:
  "map_sum id (\<lambda>s. (head s, tail s, tracked s, length_tm s, skip s))
     (run [EnqueueTask (sampleTask 1 None False) False 7, Skip,
           EnqueueTask (sampleTask 1 None False) False 8,
           EnqueueTask (sampleTask 1 None False) True 9,
           Settle 0 Fulfilled 10] (new_TaskManager None))
   = Inr (None, None, {}, 1, Inl TypeError)"
  by (simp add: script_simps)

section \<open>A rejection nobody handles\<close>

text \<open>
  One task is submitted, its promise rejects with no handler, and the caller calls
  \<open>skip()\<close>: \<open>ready\<close> is emitted with the stalled head and, as nothing waits,
  \<open>complete\<close> too.
\<close>

theorem C7_counterexample:
  "map_sum id (\<lambda>s. (head s, emitted s))
     (run [EnqueueTask (sampleTask 1 None False) False 7, Settle 0 Rejected 7, Skip]
        (new_TaskManager None))
   = Inr (None, [Dispatch 0 (Some 0, Some 0, 0, {1}), Ready 0, Complete (None, None, 1, {})])"
  by (simp add: script_simps emitted_def)

text \<open>
  C7, as the code has it. \<open>execute\<close> attaches the retry handler to the promise it makes
  exactly when the task's \<open>retry\<close> is set; in the steady regime the pending promise is the
  head's. When the promise of a
  head with \<open>retry\<close> unset rejects, no code of the module runs: no \<open>ready\<close>, no advance;
  head, tail, length, the tracked identifiers and the trace are as before, and only the
  promise is gone. From then on the chain stalls at that head for as long as \<open>skip()\<close> is
  not called: whatever is submitted and whatever settles, every call returns, the head
  stays, no promise is pending, and no work function is called and no \<open>ready\<close> or
  \<open>complete\<close> emitted; submissions only make the chain behind the head longer.
\<close>

theorem C7_unhandled_rejection:
  assumes st: "steady s (a # ws)" and unset: "\<not> retry (heap s a)" and calls: "Skip \<notin> set cs"
  shows "(case execute b t of
            Inl e \<Rightarrow> True
          | Inr t' \<Rightarrow> pending t' = pending t @ [(b, retry (heap t b))])
     \<and> settle 0 Rejected now s = Inr (s\<lparr>pending := []\<rparr>)
     \<and> (\<exists>s' ws'. run (Settle 0 Rejected now # cs) s = Inr s'
          \<and> is_chain (heap s') (head s') (a # ws')
          \<and> head s' = head s \<and> pending s' = [] \<and> emitted s' = emitted s
          \<and> length_tm s \<le> length_tm s' \<and> tracked s \<subseteq> tracked s')"
proof -
  have attach: "case execute b t of
            Inl e \<Rightarrow> True
          | Inr t' \<Rightarrow> pending t' = pending t @ [(b, retry (heap t b))]"
    by (cases "taskFunc (heap t b)") (simp_all add: execute_None execute_Some)
  from st have chain: "is_chain (heap s) (head s) (a # ws)"
    and ok: "\<forall>x\<in>set (a # ws). x < allocated s"
    and pe: "pending s = [(a, retry (heap s a))]"
    by (simp_all add: steady_def list_all_iff)
  from pe unset have first: "settle 0 Rejected now s = Inr (s\<lparr>pending := []\<rparr>)"
    by (simp add: settle_def)
  from chain ok have "stalled (s\<lparr>pending := []\<rparr>) (a # ws)"
    by (simp add: stalled_def list_all_iff)
  from stalled_run [OF this calls] obtain s' ws' where
    r: "run cs (s\<lparr>pending := []\<rparr>) = Inr s'" and st': "stalled s' (a # ws')"
    and e: "emitted s' = emitted (s\<lparr>pending := []\<rparr>)"
    and l: "length_tm (s\<lparr>pending := []\<rparr>) \<le> length_tm s'"
    and t: "tracked (s\<lparr>pending := []\<rparr>) \<subseteq> tracked s'"
    by (elim exE conjE) (rule that; assumption)
  from first r have r': "run (Settle 0 Rejected now # cs) s = Inr s'" by simp
  from st' have c': "is_chain (heap s') (head s') (a # ws')" and p': "pending s' = []"
    by (simp_all add: stalled_def)
  from c' chain have h': "head s' = head s" by simp
  from e have e': "emitted s' = emitted s" by (simp add: emitted_def)
  from l have l': "length_tm s \<le> length_tm s'" by simp
  from t have t': "tracked s \<subseteq> tracked s'" by simp
  have "\<exists>s' ws'. run (Settle 0 Rejected now # cs) s = Inr s'
          \<and> is_chain (heap s') (head s') (a # ws')
          \<and> head s' = head s \<and> pending s' = [] \<and> emitted s' = emitted s
          \<and> length_tm s \<le> length_tm s' \<and> tracked s \<subseteq> tracked s'"
    by (intro exI [of _ s'] exI [of _ ws'] conjI) (fact r' c' h' p' e' l' t')+
  with attach first show ?thesis by (intro conjI)
qed

theorem C7_unhandled_rejection_witness:
  "\<exists>s s'. run [EnqueueTask (sampleTask 1 None False) False 7,
               EnqueueTask (sampleTask 2 (Some 1) False) False 7] (new_TaskManager None) = Inr s
     \<and> steady s [0, 1] \<and> \<not> retry (heap s 0)
     \<and> settle 0 Rejected 7 s = Inr (s\<lparr>pending := []\<rparr>)
     \<and> run [Settle 0 Rejected 7, EnqueueTask (sampleTask 3 (Some 0) False) False 8,
             Settle 0 Fulfilled 9, Settle 0 Rejected 9] s = Inr s'
     \<and> head s' = Some 0 \<and> pending s' = [] \<and> emitted s' = emitted s"
proof -
  let ?cs = "[EnqueueTask (sampleTask 3 (Some 0) False) False 8,
              Settle 0 Fulfilled 9, Settle 0 Rejected 9]"
  have "\<exists>s. run [EnqueueTask (sampleTask 1 None False) False 7,
               EnqueueTask (sampleTask 2 (Some 1) False) False 7] (new_TaskManager None) = Inr s
     \<and> steady s [0, 1] \<and> \<not> retry (heap s 0) \<and> head s = Some 0"
    by (simp add: script_simps steady_def)
  then obtain s where
    r: "run [EnqueueTask (sampleTask 1 None False) False 7,
               EnqueueTask (sampleTask 2 (Some 1) False) False 7] (new_TaskManager None) = Inr s"
    and st: "steady s [0, 1]" and un: "\<not> retry (heap s 0)" and hd: "head s = Some 0"
    by (elim exE conjE) (rule that; assumption)
  have calls: "Skip \<notin> set ?cs" by simp
  from C7_unhandled_rejection [OF st un calls, where now = 7 and b = 0 and t = s] obtain s' where
    one: "settle 0 Rejected 7 s = Inr (s\<lparr>pending := []\<rparr>)"
    and r': "run (Settle 0 Rejected 7 # ?cs) s = Inr s'"
    and h': "head s' = head s" and p': "pending s' = []" and e': "emitted s' = emitted s"
    by (elim exE conjE) (rule that; assumption)
  from h' hd have h'': "head s' = Some 0" by simp
  show ?thesis
    by (intro exI [of _ s] exI [of _ s'] conjI) (fact r st un one r' h'' p' e')+
qed

section \<open>A task with no work function\<close>

text \<open>
  C10. A task object has no work function exactly when its parameters had none and the
  manager has no default. Executing it throws a \<open>TypeError\<close>, and nothing in the module
  catches it: the call that led to the dispatch throws too, be it \<open>enqueueTask\<close> on an
  idle manager, \<open>skip\<close>, the \<open>ready\<close> listener or the promise callback that emitted
  \<open>ready\<close>.
\<close>

theorem C10_missing_work_function:
  "(taskFunc (new_TMTask params now d) = None) = (p_taskFunc params = None \<and> d = None)
   \<and> (if taskFunc (heap s b) = None then execute b s = Inl TypeError else True)
   \<and> (if p_taskFunc params = None \<and> defaultTaskFunc s = None \<and> head s = None
          \<and> (if id_of params now \<in> tracked s then allowDuplicate else True)
       then enqueueTask params allowDuplicate now s = Inl TypeError else True)
   \<and> (if taskFunc (heap s b) = None \<and> next (heap s a) = Some b
       then emit_ready a s = Inl TypeError else True)
   \<and> (if taskFunc (heap s b) = None \<and> next (heap s a) = Some b \<and> head s = Some a
          \<and> 0 < length_tm s
       then skip s = Inl TypeError else True)
   \<and> (if taskFunc (heap s b) = None \<and> next (heap s a) = Some b \<and> k < length (pending s)
          \<and> fst (pending s ! k) = a
       then settle k Fulfilled now s = Inl TypeError else True)"
proof -
  have "(taskFunc (new_TMTask params now d) = None) = (p_taskFunc params = None \<and> d = None)"
    by (simp add: func_of_def split: option.split)
  moreover have "enqueueTask params allowDuplicate now s = Inl TypeError"
    if "p_taskFunc params = None" "defaultTaskFunc s = None" "head s = None"
      "if id_of params now \<in> tracked s then allowDuplicate else True"
    using that by (simp add: enqueueTask_def execute_def func_of_def Let_def)
  ultimately show ?thesis
    by (simp add: execute_None emit_ready_throws skip_def settle_def)
qed

theorem C10_missing_work_function_witness:
  "run [EnqueueTask ((sampleTask 1 None False)\<lparr>p_taskFunc := None\<rparr>) False 7]
     (new_TaskManager None) = Inl TypeError"
  using C10_missing_work_function
    [of "(sampleTask 1 None False)\<lparr>p_taskFunc := None\<rparr>" 7 None "new_TaskManager None" 0 False 0 0]
  by (simp add: new_TaskManager_def sampleTask_def id_of_def)

section \<open>The retry handler's priority\<close>

text \<open>
  A task of priority \<open>-9007199254740994\<close>, which is a number and below 5, is submitted
  with \<open>retry\<close> set and its promise rejects. Numbers of that magnitude are two apart: the
  increment moves the priority by two, on the task object and on the copy that is queued.
\<close>

theorem C8_counterexample:
  "js_integer (- 9007199254740994) \<and> (- 9007199254740994 :: int) < 5
   \<and> demote (- 9007199254740994) = - 9007199254740994 + 2
   \<and> map_sum id (\<lambda>s. map (key s) [0, 1])
       (run [EnqueueTask (sampleTask 1 (Some (- 9007199254740994)) True) False 7,
             Settle 0 Rejected 7] (new_TaskManager None))
     = Inr [(1, - 9007199254740992), (1, - 9007199254740992)]"
  by (simp add: script_simps key_def demote_def js_integer_def number_of_def nearest_def
        ulp_small ulp_big)

text \<open>
  C8, as the code has it. The head \<open>a\<close> of a chain was executed with \<open>retry\<close> set, its
  priority \<open>p\<close> is an integer that is a number, and its promise rejects. The failure
  branch leaves a priority of 5 or more alone and moves a smaller one to the number
  nearest to \<open>p + 1\<close>, which is \<open>p + 1\<close> exactly from \<open>- 2 ^ 53\<close> on and is \<open>p\<close> or
  \<open>p + 2\<close> below. It never lowers the priority, never moves it beyond 5, and leaves it a
  number. When the handler returns, the
  task object and the copy that is queued in its place (at the address \<open>allocated s\<close>,
  with \<open>retry\<close> set again) carry the new priority. When the task is alone in the queue,
  \<open>n\<close> rejections in a row are \<open>n\<close> retries: each returns, the copy made by the last one
  is the head, and its priority is \<open>demote\<close> applied \<open>n\<close> times, which is at least \<open>p\<close>, at
  most 5 (or \<open>p\<close>, when \<open>p\<close> is above 5), and not lowered by one more retry.
\<close>

theorem C8_retry_priority:
  assumes chain: "is_chain (heap s) (head s) (a # ws)"
    and objects: "\<forall>x\<in>set (a # ws). x < allocated s \<and> taskFunc (heap s x) \<noteq> None"
    and len: "0 \<le> length_tm s"
    and promise: "pending s = [(a, True)]" and again: "retry (heap s a)"
    and prio: "taskPriority (heap s a) = p" and number: "js_integer p"
  shows "(demote p = p + 1) = (- (2 ^ 53) \<le> p \<and> p < 5)
     \<and> (if 5 \<le> p then demote p = p else True)
     \<and> (if p < - (2 ^ 53) then demote p = p \<or> demote p = p + 2 else True)
     \<and> p \<le> demote p \<and> demote p \<le> max p 5 \<and> js_integer (demote p)
     \<and> (\<exists>s' cs. settle 0 Rejected now s = Inr s'
           \<and> is_chain (heap s') (head s') cs \<and> allocated s \<in> set cs
           \<and> taskPriority (heap s' (allocated s)) = demote p
           \<and> taskPriority (heap s' a) = demote p
           \<and> retry (heap s' (allocated s)))
     \<and> (if ws = [] then
           \<exists>s' b. run (replicate n (Settle 0 Rejected now)) s = Inr s'
             \<and> is_chain (heap s') (head s') [b]
             \<and> taskPriority (heap s' b) = (demote ^^ n) p
             \<and> js_integer ((demote ^^ n) p)
             \<and> p \<le> (demote ^^ n) p \<and> (demote ^^ n) p \<le> max p 5
             \<and> (demote ^^ n) p \<le> (demote ^^ Suc n) p
         else True)"
proof -
  note f = demote_facts [OF number]
  have above: "if 5 \<le> p then demote p = p else True"
    by (simp add: demote_def)
  have below: "if p < - (2 ^ 53) then demote p = p \<or> demote p = p + 2 else True"
    using demote_far(1) [OF number] by simp
  from promise have pr: "0 < length (pending s)" "pending s ! 0 = (a, True)" by simp_all
  let ?P = "\<lambda>x. taskPriority (heap s x) \<le> demote (taskPriority (heap s a))"
  from retry_sequence [OF chain objects len pr, of now] obtain s1 where
    r1: "settle 0 Rejected now s = Inr s1"
    and c1: "is_chain (heap s1) (head s1) (takeWhile ?P ws @ allocated s # dropWhile ?P ws)"
    and k1: "key s1 (allocated s)
         = (if id_task (heap s a) = 0 then now else id_task (heap s a),
            demote (taskPriority (heap s a)))"
    and re1: "retry (heap s1 (allocated s)) = retry (heap s a)"
    and pa1: "taskPriority (heap s1 a) = demote (taskPriority (heap s a))"
    by (elim exE conjE) (rule that; assumption)
  have m1: "allocated s \<in> set (takeWhile ?P ws @ allocated s # dropWhile ?P ws)" by simp
  from k1 prio have n1: "taskPriority (heap s1 (allocated s)) = demote p"
    by (simp add: key_def)
  from pa1 prio have a1: "taskPriority (heap s1 a) = demote p" by simp
  from re1 again have g1: "retry (heap s1 (allocated s))" by simp
  have once: "\<exists>s' cs. settle 0 Rejected now s = Inr s'
           \<and> is_chain (heap s') (head s') cs \<and> allocated s \<in> set cs
           \<and> taskPriority (heap s' (allocated s)) = demote p
           \<and> taskPriority (heap s' a) = demote p
           \<and> retry (heap s' (allocated s))"
    by (intro exI [of _ s1] exI [of _ "takeWhile ?P ws @ allocated s # dropWhile ?P ws"] conjI)
       (fact r1 c1 m1 n1 a1 g1)+
  have often: "\<exists>s' b. run (replicate n (Settle 0 Rejected now)) s = Inr s'
             \<and> is_chain (heap s') (head s') [b]
             \<and> taskPriority (heap s' b) = (demote ^^ n) p
             \<and> js_integer ((demote ^^ n) p)
             \<and> p \<le> (demote ^^ n) p \<and> (demote ^^ n) p \<le> max p 5
             \<and> (demote ^^ n) p \<le> (demote ^^ Suc n) p"
    if alone: "ws = []"
  proof -
    from chain alone have ch: "is_chain (heap s) (head s) [a]" by simp
    from objects have ob: "a < allocated s" "taskFunc (heap s a) \<noteq> None" by simp_all
    from retry_alone [OF ch ob len promise again, of n now] obtain s' b where
      r: "run (replicate n (Settle 0 Rejected now)) s = Inr s'"
      and c: "is_chain (heap s') (head s') [b]"
      and q: "taskPriority (heap s' b) = (demote ^^ n) (taskPriority (heap s a))"
      by (elim exE conjE) (rule that; assumption)
    from q prio have q': "taskPriority (heap s' b) = (demote ^^ n) p" by simp
    from demote_iterated [OF number, of n]
    have i: "js_integer ((demote ^^ n) p)" "p \<le> (demote ^^ n) p" "(demote ^^ n) p \<le> max p 5"
      "(demote ^^ n) p \<le> (demote ^^ Suc n) p"
      by simp_all
    show ?thesis
      by (intro exI [of _ s'] exI [of _ b] conjI) (fact r c q' i)+
  qed
  have often': "if ws = [] then
           \<exists>s' b. run (replicate n (Settle 0 Rejected now)) s = Inr s'
             \<and> is_chain (heap s') (head s') [b]
             \<and> taskPriority (heap s' b) = (demote ^^ n) p
             \<and> js_integer ((demote ^^ n) p)
             \<and> p \<le> (demote ^^ n) p \<and> (demote ^^ n) p \<le> max p 5
             \<and> (demote ^^ n) p \<le> (demote ^^ Suc n) p
         else True"
  proof (cases "ws = []")
    case True
    show ?thesis unfolding if_P [OF True] by (rule often [OF True])
  next
    case False
    show ?thesis unfolding if_not_P [OF False] by (rule TrueI)
  qed
  show ?thesis
    by (intro conjI) (fact f above below once often')+
qed

theorem C8_retry_priority_witness:
  "\<exists>s s' b. run [EnqueueTask (sampleTask 1 (Some 3) True) False 7] (new_TaskManager None) = Inr s
     \<and> is_chain (heap s) (head s) [0] \<and> pending s = [(0, True)]
     \<and> taskPriority (heap s 0) = 3 \<and> js_integer 3 \<and> demote 3 = 4
     \<and> run (replicate 3 (Settle 0 Rejected 7)) s = Inr s'
     \<and> is_chain (heap s') (head s') [b]
     \<and> taskPriority (heap s' b) = 5"
proof -
  have "\<exists>s. run [EnqueueTask (sampleTask 1 (Some 3) True) False 7] (new_TaskManager None) = Inr s
     \<and> is_chain (heap s) (head s) [0] \<and> pending s = [(0, True)]
     \<and> taskPriority (heap s 0) = 3 \<and> allocated s = 1 \<and> taskFunc (heap s 0) = Some 0
     \<and> length_tm s = 1 \<and> retry (heap s 0)"
    by (simp add: script_simps)
  then obtain s where
    r: "run [EnqueueTask (sampleTask 1 (Some 3) True) False 7] (new_TaskManager None) = Inr s"
    and ch: "is_chain (heap s) (head s) [0]" and pe: "pending s = [(0, True)]"
    and p: "taskPriority (heap s 0) = 3" and al: "allocated s = 1"
    and fn: "taskFunc (heap s 0) = Some 0" and l: "length_tm s = 1" and re: "retry (heap s 0)"
    by (elim exE conjE) (rule that; assumption)
  from al fn have objects: "\<forall>x\<in>set [0]. x < allocated s \<and> taskFunc (heap s x) \<noteq> None"
    by simp
  from l have len: "0 \<le> length_tm s" by simp
  have num: "js_integer 3" by (simp add: js_integer_def number_of_small)
  have d: "demote 3 = 4" by (simp add: demote_exact)
  have three: "(demote ^^ 3) 3 = 5" by (simp add: eval_nat_numeral demote_exact)
  from C8_retry_priority [OF ch objects len pe re p num, of 7 3]
  have "if ([] :: addr list) = [] then
           \<exists>s' b. run (replicate 3 (Settle 0 Rejected 7)) s = Inr s'
             \<and> is_chain (heap s') (head s') [b]
             \<and> taskPriority (heap s' b) = (demote ^^ 3) 3
             \<and> js_integer ((demote ^^ 3) 3)
             \<and> 3 \<le> (demote ^^ 3) 3 \<and> (demote ^^ 3) 3 \<le> max 3 5
             \<and> (demote ^^ 3) 3 \<le> (demote ^^ Suc 3) 3
         else True"
    by (elim conjE)
  then have "\<exists>s' b. run (replicate 3 (Settle 0 Rejected 7)) s = Inr s'
             \<and> is_chain (heap s') (head s') [b]
             \<and> taskPriority (heap s' b) = (demote ^^ 3) 3
             \<and> js_integer ((demote ^^ 3) 3)
             \<and> 3 \<le> (demote ^^ 3) 3 \<and> (demote ^^ 3) 3 \<le> max 3 5
             \<and> (demote ^^ 3) 3 \<le> (demote ^^ Suc 3) 3"
    by (simp only: refl if_True)
  then obtain s' b where
    r': "run (replicate 3 (Settle 0 Rejected 7)) s = Inr s'"
    and c': "is_chain (heap s') (head s') [b]"
    and q: "taskPriority (heap s' b) = (demote ^^ 3) 3"
    by (elim exE conjE) (rule that; assumption)
  from q three have q': "taskPriority (heap s' b) = 5" by simp
  show ?thesis
    by (intro exI [of _ s] exI [of _ s'] exI [of _ b] conjI) (fact r ch pe p num d r' c' q')+
qed

end
